theory Spec2Isabelle
  imports Complex_Main "HOL-Library.Multiset"
begin

section \<open>Conway's Game of Life with a fixed pool of pthreads (life.c)\<close>

text \<open>
  The program keeps two \<open>(gridsize + 2) \<times> (gridsize + 2)\<close> arrays of \<open>int\<close>, \<open>grid[0]\<close> and
  \<open>grid[1]\<close>, and three shared counters. Each worker has a range of rows; in every iteration
  it reads the previous array, writes its rows of the current one, and adds its local counters
  to the shared ones between two barrier waits.

  Conventions of the embedding.
  \<^item> The values \<open>atoi\<close> returns for \<open>num_threads\<close>, \<open>gridsize\<close> and \<open>num_iters\<close> and the
    thread numbers are natural numbers.
  \<^item> The bounds of lines 45-46 and the product of line 162 are computed as the machine computes
    them, in 32 bits with wrap-around (\<open>int32\<close>, \<open>c_div\<close>). The rows a worker visits are
    integers; a sweep over a row outside the arrays has no value.
  \<^item> Cells and counters are unbounded integers. A counter never exceeds
    \<open>gridsize * gridsize\<close>, so for the sizes \<open>fits_int\<close> admits it is the \<open>int\<close> of the
    source; the properties are stated for these sizes.
  \<^item> An array is a list of rows; \<open>grid[b][i][j]\<close> is \<open>cell g i j\<close> of the buffer \<open>g\<close>.
  \<^item> \<open>init_pct\<close> and the values of \<open>drand48\<close> are the real numbers the doubles denote;
    only \<open>drand48() < init_pct\<close> is computed on them.
\<close>

subsection \<open>The ints of the program\<close>

text \<open>
  An \<open>int\<close> holds 32 bits in two's complement: \<open>int32 x\<close> is the \<open>int\<close> that holds the
  result \<open>x\<close> of an operation. Where \<open>x\<close> lies outside the range, C leaves the behaviour
  undefined and the compiled program wraps around, as written here. \<open>c_div\<close> is C's \<open>/\<close>,
  which truncates towards zero. The divisions of lines 45-46 are executed by a worker, so
  their divisor \<open>num_threads\<close> is at least 1 wherever the program divides.
\<close>

definition int32 :: "int \<Rightarrow> int" where
  "int32 x = (x + 2147483648) mod 4294967296 - 2147483648"

definition c_div :: "int \<Rightarrow> int \<Rightarrow> int" where
  "c_div a b = sgn a * sgn b * (\<bar>a\<bar> div \<bar>b\<bar>)"

text \<open>
  The sizes for which no \<open>int\<close> of the program leaves the range: the products
  \<open>thread_num * gridsize\<close> of line 45 stay below \<open>num_threads * gridsize\<close>, and the counters
  and the product \<open>gridsize * gridsize\<close> of line 162 are at most \<open>gridsize * gridsize\<close>.
\<close>

definition fits_int :: "nat \<Rightarrow> nat \<Rightarrow> bool" where
  "fits_int num_threads gridsize \<longleftrightarrow>
     num_threads * gridsize < 2147483648 \<and> gridsize * gridsize < 2147483648"

subsection \<open>Row ranges (life.c, lines 45-46)\<close>

definition start_row :: "nat \<Rightarrow> nat \<Rightarrow> nat \<Rightarrow> int" where
  "start_row num_threads gridsize thread_num =
     int32 (c_div (int32 (int thread_num * int gridsize)) (int num_threads) + 1)"

definition end_row :: "nat \<Rightarrow> nat \<Rightarrow> nat \<Rightarrow> int" where
  "end_row num_threads gridsize thread_num =
     int32 (int32 (start_row num_threads gridsize thread_num +
                   c_div (int gridsize) (int num_threads)) - 1)"

text \<open>The values \<open>i\<close> takes in the loop of line 64 of worker \<open>thread_num\<close>, in order.\<close>

definition rows :: "nat \<Rightarrow> nat \<Rightarrow> nat \<Rightarrow> int list" where
  "rows num_threads gridsize thread_num =
     [start_row num_threads gridsize thread_num..end_row num_threads gridsize thread_num]"

text \<open>Row \<open>r\<close> is visited by worker \<open>thread_num\<close>.\<close>

definition owns :: "nat \<Rightarrow> nat \<Rightarrow> nat \<Rightarrow> int \<Rightarrow> bool" where
  "owns num_threads gridsize thread_num r \<longleftrightarrow>
     start_row num_threads gridsize thread_num \<le> r \<and>
     r \<le> end_row num_threads gridsize thread_num"

text \<open>Row \<open>r\<close> is visited by one of the workers \<open>0, \<dots>, num_threads - 1\<close>.\<close>

definition owned :: "nat \<Rightarrow> nat \<Rightarrow> int \<Rightarrow> bool" where
  "owned num_threads gridsize r \<longleftrightarrow>
     (\<exists>t \<in> set [0..<num_threads]. owns num_threads gridsize t r)"

text \<open>
  The body of the loop reads the rows \<open>i - 1\<close>, \<open>i\<close> and \<open>i + 1\<close> of \<open>grid[prev]\<close> and writes
  row \<open>i\<close> of \<open>grid[curr]\<close>: the rows of a worker lie in the arrays when each of them is one
  of \<open>1, \<dots>, gridsize\<close>.
\<close>

definition in_arrays :: "nat \<Rightarrow> nat \<Rightarrow> nat \<Rightarrow> bool" where
  "in_arrays num_threads gridsize thread_num \<longleftrightarrow>
     (\<forall>i \<in> set (rows num_threads gridsize thread_num). 1 \<le> i \<and> i \<le> int gridsize)"

subsection \<open>Grids and counters\<close>

type_synonym grid = "int list list"

definition cell :: "grid \<Rightarrow> nat \<Rightarrow> nat \<Rightarrow> int" where
  "cell g i j = g ! i ! j"

definition set_cell :: "grid \<Rightarrow> nat \<Rightarrow> nat \<Rightarrow> int \<Rightarrow> grid" where
  "set_cell g i j v = g[i := (g ! i)[j := v]]"

text \<open>The shape \<open>malloc\<close> gives both arrays on lines 136-141.\<close>

definition wf_grid :: "nat \<Rightarrow> grid \<Rightarrow> bool" where
  "wf_grid gridsize g \<longleftrightarrow>
     length g = gridsize + 2 \<and> (\<forall>i < gridsize + 2. length (g ! i) = gridsize + 2)"

text \<open>The local counters of a worker (line 49).\<close>

record tally =
  local_live_count :: int
  local_birth_count :: int
  local_death_count :: int

definition zero_tally :: tally where
  "zero_tally = \<lparr>local_live_count = 0, local_birth_count = 0, local_death_count = 0\<rparr>"

text \<open>What the program prints to standard output, a line at a time.\<close>

datatype event =
    Initial int int
  | Iteration nat
  | Counters int int int

text \<open>The globals of lines 22-23, with the lines printed so far.\<close>

record sim =
  grid0 :: grid
  grid1 :: grid
  live_count :: int
  birth_count :: int
  death_count :: int
  stdout :: "event list"

definition buf :: "sim \<Rightarrow> nat \<Rightarrow> grid" where
  "buf s b = (if b = 0 then grid0 s else grid1 s)"

definition set_buf :: "sim \<Rightarrow> nat \<Rightarrow> grid \<Rightarrow> sim" where
  "set_buf s b g = (if b = 0 then s\<lparr>grid0 := g\<rparr> else s\<lparr>grid1 := g\<rparr>)"

definition print :: "event \<Rightarrow> sim \<Rightarrow> sim" where
  "print e s = s\<lparr>stdout := stdout s @ [e]\<rparr>"

subsection \<open>The transition of one cell (lines 66-86)\<close>

definition neigh_count :: "grid \<Rightarrow> nat \<Rightarrow> nat \<Rightarrow> int" where
  "neigh_count prev i j =
     cell prev (i - 1) (j - 1) + cell prev (i - 1) j + cell prev (i - 1) (j + 1) +
     cell prev i (j - 1) + cell prev i (j + 1) +
     cell prev (i + 1) (j - 1) + cell prev (i + 1) j + cell prev (i + 1) (j + 1)"

text \<open>
  The body of the inner loop. \<open>prev\<close> and \<open>cur\<close> (the source's \<open>curr\<close>) hold the two
  distinct arrays \<open>grid[prev]\<close> and \<open>grid[curr]\<close>; the last line reads back the cell just
  written.
\<close>

definition visit_cell :: "grid \<Rightarrow> nat \<Rightarrow> nat \<Rightarrow> grid \<times> tally \<Rightarrow> grid \<times> tally" where
  "visit_cell prev i j = (\<lambda>(cur, c).
     let switched =
       (if neigh_count prev i j = 2 then
          (set_cell cur i j (cell prev i j), c)
        else if neigh_count prev i j = 3 then
          (set_cell cur i j 1,
           if cell prev i j = 0 then c\<lparr>local_birth_count := local_birth_count c + 1\<rparr> else c)
        else
          (set_cell cur i j 0,
           if cell prev i j \<noteq> 0 then c\<lparr>local_death_count := local_death_count c + 1\<rparr> else c))
     in (fst switched,
         (snd switched)\<lparr>local_live_count :=
            local_live_count (snd switched) + cell (fst switched) i j\<rparr>))"

text \<open>The loops of lines 64-65 over the worker's rows and the columns \<open>1..gridsize\<close>.\<close>

definition visit_row :: "nat \<Rightarrow> grid \<Rightarrow> nat \<Rightarrow> grid \<times> tally \<Rightarrow> grid \<times> tally" where
  "visit_row gridsize prev i = fold (visit_cell prev i) [1..<Suc gridsize]"

text \<open>
  The sweep of a worker. When one of its rows lies outside the arrays the loop indexes outside
  them, which C leaves undefined: the sweep then has no value here.
\<close>

definition thread_sweep :: "nat \<Rightarrow> nat \<Rightarrow> nat \<Rightarrow> grid \<Rightarrow> grid \<Rightarrow> grid \<times> tally" where
  "thread_sweep num_threads gridsize thread_num prev cur =
     (if in_arrays num_threads gridsize thread_num
      then fold (visit_row gridsize prev)
             (map nat (rows num_threads gridsize thread_num)) (cur, zero_tally)
      else undefined)"

subsection \<open>One iteration of a worker (lines 55-112)\<close>

text \<open>
  Lines 56-87: the worker numbered 0 prints the progress line; every worker then sweeps its
  rows, reading \<open>grid[prev]\<close> and writing \<open>grid[curr]\<close>. The result is the new shared
  state and the worker's local counters.
\<close>

definition compute_part ::
  "nat \<Rightarrow> nat \<Rightarrow> nat \<Rightarrow> nat \<Rightarrow> nat \<Rightarrow> nat \<Rightarrow> sim \<Rightarrow> sim \<times> tally" where
  "compute_part num_threads gridsize thread_num iter cur prev s =
     (let s1 = (if thread_num = 0 then print (Iteration iter) s else s);
          swept = thread_sweep num_threads gridsize thread_num (buf s1 prev) (buf s1 cur)
      in (set_buf s1 cur (fst swept), snd swept))"

text \<open>Line 91.\<close>

definition reset :: "sim \<Rightarrow> sim" where
  "reset s = s\<lparr>live_count := 0, death_count := 0, birth_count := 0\<rparr>"

text \<open>Lines 98-102, between the lock and the unlock of the mutex.\<close>

definition accumulate :: "tally \<Rightarrow> sim \<Rightarrow> sim" where
  "accumulate c s =
     s\<lparr>live_count := live_count s + local_live_count c,
       death_count := death_count s + local_death_count c,
       birth_count := birth_count s + local_birth_count c\<rparr>"

text \<open>Lines 108-111.\<close>

definition report :: "nat \<Rightarrow> sim \<Rightarrow> sim" where
  "report thread_num s =
     (if thread_num = 0
      then print (Counters (live_count s) (death_count s) (birth_count s)) s
      else s)"

subsection \<open>A generation of all workers, phase by phase\<close>

text \<open>
  The two barrier waits of lines 94 and 105 cut an iteration of the pool into three phases:
  every worker sweeps and resets the counters; every worker adds its local counters; the
  worker numbered 0 reports. \<open>order\<close> lists the workers in the order in which their steps
  take effect within a phase. The sweeps of one phase write rows of \<open>grid[curr]\<close> only and
  read \<open>grid[prev]\<close> only, so a whole sweep is one step here.

  No barrier follows the report, so the third phase of an iteration can overlap the first
  phase of the next one. The phased run is the run in which it does not: worker 0 reports
  before any worker goes on. The workers as threads, with every interleaving of their steps,
  are modelled further down (\<open>thread_step\<close>, \<open>exec\<close>); lemmas \<open>reduction_complete\<close> and
  \<open>returned_grids\<close> show that in every interleaving the arrays, and the counters when the
  last worker arrives at the second barrier, are those of the phased run. With one worker
  the phased run is the only run.
\<close>

definition compute_phase ::
  "nat list \<Rightarrow> nat \<Rightarrow> nat \<Rightarrow> nat \<Rightarrow> nat \<Rightarrow> nat \<Rightarrow> sim \<Rightarrow> sim \<times> (nat \<Rightarrow> tally)" where
  "compute_phase order num_threads gridsize iter cur prev s =
     fold (\<lambda>t (s, locals).
             let r = compute_part num_threads gridsize t iter cur prev s
             in (reset (fst r), locals(t := snd r)))
       order (s, \<lambda>t. zero_tally)"

definition reduce_phase :: "nat list \<Rightarrow> (nat \<Rightarrow> tally) \<Rightarrow> sim \<Rightarrow> sim" where
  "reduce_phase order locals s = fold (\<lambda>t. accumulate (locals t)) order s"

definition report_phase :: "nat list \<Rightarrow> sim \<Rightarrow> sim" where
  "report_phase order s = fold report order s"

definition generation_in ::
  "nat list \<Rightarrow> nat \<Rightarrow> nat \<Rightarrow> nat \<Rightarrow> nat \<Rightarrow> nat \<Rightarrow> sim \<Rightarrow> sim" where
  "generation_in order num_threads gridsize iter cur prev s =
     (let computed = compute_phase order num_threads gridsize iter cur prev s
      in report_phase order (reduce_phase order (snd computed) (fst computed)))"

text \<open>The workers in the order of their thread numbers.\<close>

definition generation :: "nat \<Rightarrow> nat \<Rightarrow> nat \<Rightarrow> nat \<Rightarrow> nat \<Rightarrow> sim \<Rightarrow> sim" where
  "generation num_threads gridsize iter cur prev s =
     generation_in [0..<num_threads] num_threads gridsize iter cur prev s"

text \<open>
  The loop of line 55 with the swap of line 57. Every worker starts from \<open>curr = 0\<close>,
  \<open>prev = 1\<close> (line 52) and flips both at each iteration, so the pool shares their values.
  \<open>sched iter\<close> is the order of the workers in iteration \<open>iter\<close>.
\<close>

definition iteration ::
  "(nat \<Rightarrow> nat list) \<Rightarrow> nat \<Rightarrow> nat \<Rightarrow> nat \<Rightarrow> nat \<times> nat \<times> sim \<Rightarrow> nat \<times> nat \<times> sim" where
  "iteration sched num_threads gridsize iter = (\<lambda>(cur, prev, s).
     let cur = 1 - cur; prev = 1 - prev
     in (cur, prev, generation_in (sched iter) num_threads gridsize iter cur prev s))"

definition run_in ::
  "(nat \<Rightarrow> nat list) \<Rightarrow> nat \<Rightarrow> nat \<Rightarrow> nat \<Rightarrow> sim \<Rightarrow> nat \<times> nat \<times> sim" where
  "run_in sched num_threads gridsize num_iters s =
     fold (iteration sched num_threads gridsize) [1..<Suc num_iters] (0, 1, s)"

definition in_order :: "nat \<Rightarrow> nat \<Rightarrow> nat list" where
  "in_order num_threads iter = [0..<num_threads]"

definition run :: "nat \<Rightarrow> nat \<Rightarrow> nat \<Rightarrow> sim \<Rightarrow> nat \<times> nat \<times> sim" where
  "run num_threads gridsize num_iters s =
     run_in (in_order num_threads) num_threads gridsize num_iters s"

text \<open>The shared state, the current and the previous array after \<open>g\<close> iterations.\<close>

definition state_after :: "nat \<Rightarrow> nat \<Rightarrow> nat \<Rightarrow> sim \<Rightarrow> sim" where
  "state_after num_threads gridsize g s = snd (snd (run num_threads gridsize g s))"

definition cur_after :: "nat \<Rightarrow> nat" where
  "cur_after g = g mod 2"

definition prev_after :: "nat \<Rightarrow> nat" where
  "prev_after g = 1 - g mod 2"

subsection \<open>The driver (lines 117-202)\<close>

text \<open>
  The four values read from the command line on lines 130-133. The program does not check
  them; here the three counts are natural numbers, so a negative count is outside the model.
\<close>

record args =
  arg_num_threads :: nat
  arg_gridsize :: nat
  arg_init_pct :: real
  arg_num_iters :: nat

text \<open>
  What the program meets outside its own code: the contents of the memory \<open>malloc\<close> returns,
  the generator of the C library (\<open>drand48_after seed k\<close> is the value of the \<open>k\<close>-th call of
  \<open>drand48\<close> after \<open>srand48(seed)\<close>), the values returned by \<open>pthread_barrier_init\<close>,
  \<open>pthread_mutex_init\<close> and the calls of \<open>pthread_create\<close>, and the order of the workers
  in each iteration.
\<close>

record env =
  heap0 :: "nat \<Rightarrow> nat \<Rightarrow> int"
  heap1 :: "nat \<Rightarrow> nat \<Rightarrow> int"
  drand48_after :: "int \<Rightarrow> nat \<Rightarrow> real"
  barrier_init_rc :: int
  mutex_init_rc :: int
  create_rc :: "nat \<Rightarrow> int"
  schedule :: "nat \<Rightarrow> nat list"

text \<open>Lines 136-141: an array of \<open>gridsize + 2\<close> rows of \<open>gridsize + 2\<close> cells.\<close>

definition malloc_grid :: "nat \<Rightarrow> (nat \<Rightarrow> nat \<Rightarrow> int) \<Rightarrow> grid" where
  "malloc_grid gridsize junk = map (\<lambda>i. map (junk i) [0..<gridsize + 2]) [0..<gridsize + 2]"

text \<open>Lines 144-148.\<close>

definition zero_row :: "nat \<Rightarrow> nat \<Rightarrow> grid \<times> grid \<Rightarrow> grid \<times> grid" where
  "zero_row gridsize i =
     fold (\<lambda>j (g0, g1). (set_cell g0 i j 0, set_cell g1 i j 0)) [0..<gridsize + 2]"

definition zero_grids :: "nat \<Rightarrow> grid \<times> grid \<Rightarrow> grid \<times> grid" where
  "zero_grids gridsize = fold (zero_row gridsize) [0..<gridsize + 2]"

text \<open>
  Lines 152-160. The state of the loop is the array, \<open>live_count\<close> and the number of calls
  of \<open>drand48\<close> made so far.
\<close>

definition seed_cell ::
  "real \<Rightarrow> (nat \<Rightarrow> real) \<Rightarrow> nat \<Rightarrow> nat \<Rightarrow> grid \<times> int \<times> nat \<Rightarrow> grid \<times> int \<times> nat" where
  "seed_cell pct drand48 i j = (\<lambda>(g, live, calls).
     if drand48 calls < pct then (set_cell g i j 1, live + 1, Suc calls)
     else (set_cell g i j 0, live, Suc calls))"

definition seed_row ::
  "nat \<Rightarrow> real \<Rightarrow> (nat \<Rightarrow> real) \<Rightarrow> nat \<Rightarrow> grid \<times> int \<times> nat \<Rightarrow> grid \<times> int \<times> nat" where
  "seed_row gridsize pct drand48 i = fold (seed_cell pct drand48 i) [1..<Suc gridsize]"

definition seed_grid :: "nat \<Rightarrow> real \<Rightarrow> (nat \<Rightarrow> real) \<Rightarrow> grid \<Rightarrow> grid \<times> int \<times> nat" where
  "seed_grid gridsize pct drand48 g =
     fold (seed_row gridsize pct drand48) [1..<Suc gridsize] (g, 0, 0)"

text \<open>Lines 127-163: the state in which the workers start. The seed is the constant 0.\<close>

definition initial :: "env \<Rightarrow> args \<Rightarrow> sim" where
  "initial e a =
     (let zeroed = zero_grids (arg_gridsize a)
            (malloc_grid (arg_gridsize a) (heap0 e), malloc_grid (arg_gridsize a) (heap1 e));
          seeded = seed_grid (arg_gridsize a) (arg_init_pct a) (drand48_after e 0) (fst zeroed)
      in print (Initial (fst (snd seeded)) (int32 (int (arg_gridsize a) * int (arg_gridsize a))))
           \<lparr>grid0 = fst seeded, grid1 = snd zeroed, live_count = fst (snd seeded),
            birth_count = 0, death_count = 0, stdout = []\<rparr>)"

text \<open>
  Lines 165-181. The values returned by \<open>pthread_barrier_init\<close> and \<open>pthread_mutex_init\<close>
  are dropped; the first call of \<open>pthread_create\<close> that fails ends the program, when the
  workers with a lower number have been created. The result lists the workers created.
\<close>

datatype stderr_line = Usage | Could_not_create_thread nat

datatype startup = Started "nat list" | Aborted int stderr_line "nat list"

definition startup :: "env \<Rightarrow> args \<Rightarrow> startup" where
  "startup e a =
     (case List.find (\<lambda>thread. create_rc e thread \<noteq> 0) [0..<arg_num_threads a] of
        Some thread \<Rightarrow> Aborted 1 (Could_not_create_thread thread) [0..<thread]
      | None \<Rightarrow> Started [0..<arg_num_threads a])"

text \<open>
  The program: the usage error of lines 121-124, the initialisation, the startup and, when all
  workers were created, their iterations until they are joined (line 187), as a phased run;
  then lines 190-200 destroy the barrier and the mutex and free the arrays, and the program
  ends with status 0. \<open>Completed\<close> carries the state the workers leave. Its final arrays are
  those of every interleaving of the workers (lemma \<open>main_grids_any_interleaving\<close>).

  Lines 166 and 169 drop the results of \<open>pthread_barrier_init\<close> and \<open>pthread_mutex_init\<close>.
  When one of them has failed, the workers wait in, or lock, an object that was never
  initialised, and lines 191 and 194 destroy it, which POSIX leaves undefined. Undefined too
  is a sweep whose rows lie outside the arrays. A worker created before a failing
  \<open>pthread_create\<close> may reach its sweep and the barrier before line 180 ends the program.
\<close>

datatype outcome = Exited int stderr_line | Completed sim | Undefined_behaviour

text \<open>No sweep of the workers created indexes outside the arrays.\<close>

definition sweeps_defined :: "args \<Rightarrow> nat list \<Rightarrow> bool" where
  "sweeps_defined a created \<longleftrightarrow>
     arg_num_iters a = 0 \<or>
     (\<forall>t \<in> set created. in_arrays (arg_num_threads a) (arg_gridsize a) t)"

definition main :: "env \<Rightarrow> nat \<Rightarrow> args \<Rightarrow> outcome" where
  "main e argc a =
     (if argc \<noteq> 5 then Exited 1 Usage
      else
        let s = initial e a in
        case startup e a of
          Aborted status line created \<Rightarrow>
            if sweeps_defined a created \<and>
               (barrier_init_rc e = 0 \<or> created = [] \<or> arg_num_iters a = 0)
            then Exited status line
            else Undefined_behaviour
        | Started created \<Rightarrow>
            if sweeps_defined a created \<and> barrier_init_rc e = 0 \<and> mutex_init_rc e = 0
            then Completed (snd (snd (run_in (schedule e) (arg_num_threads a) (arg_gridsize a)
                                         (arg_num_iters a) s)))
            else Undefined_behaviour)"

section \<open>Functions used to state the properties\<close>

subsection \<open>Row ranges in natural numbers\<close>

text \<open>The bounds of lines 45-46 computed without a limit on the size of the numbers, and the
  rows between them.\<close>

definition first_row :: "nat \<Rightarrow> nat \<Rightarrow> nat \<Rightarrow> nat" where
  "first_row T N t = t * N div T + 1"

definition last_row :: "nat \<Rightarrow> nat \<Rightarrow> nat \<Rightarrow> nat" where
  "last_row T N t = first_row T N t + N div T - 1"

definition covers :: "nat \<Rightarrow> nat \<Rightarrow> nat \<Rightarrow> nat \<Rightarrow> bool" where
  "covers T N t r \<longleftrightarrow> first_row T N t \<le> r \<and> r \<le> last_row T N t"

definition covered :: "nat \<Rightarrow> nat \<Rightarrow> nat \<Rightarrow> bool" where
  "covered T N r \<longleftrightarrow> (\<exists>t \<in> set [0..<T]. covers T N t r)"

definition next_cell :: "grid \<Rightarrow> nat \<Rightarrow> nat \<Rightarrow> int" where
  "next_cell prev i j =
     (if neigh_count prev i j = 2 then cell prev i j
      else if neigh_count prev i j = 3 then 1 else 0)"

definition is_birth :: "grid \<Rightarrow> nat \<Rightarrow> nat \<Rightarrow> bool" where
  "is_birth prev i j \<longleftrightarrow> neigh_count prev i j = 3 \<and> cell prev i j = 0"

definition is_death :: "grid \<Rightarrow> nat \<Rightarrow> nat \<Rightarrow> bool" where
  "is_death prev i j \<longleftrightarrow>
     neigh_count prev i j \<noteq> 2 \<and> neigh_count prev i j \<noteq> 3 \<and> cell prev i j \<noteq> 0"

definition cell_tally :: "grid \<Rightarrow> nat \<Rightarrow> nat \<Rightarrow> tally" where
  "cell_tally prev i j =
     \<lparr>local_live_count = next_cell prev i j,
      local_birth_count = (if is_birth prev i j then 1 else 0),
      local_death_count = (if is_death prev i j then 1 else 0)\<rparr>"

definition add_tally :: "tally \<Rightarrow> tally \<Rightarrow> tally" where
  "add_tally a b =
     \<lparr>local_live_count = local_live_count a + local_live_count b,
      local_birth_count = local_birth_count a + local_birth_count b,
      local_death_count = local_death_count a + local_death_count b\<rparr>"

definition sum_tally :: "(nat \<Rightarrow> tally) \<Rightarrow> nat list \<Rightarrow> tally" where
  "sum_tally f xs = fold (\<lambda>x c. add_tally c (f x)) xs zero_tally"

definition row_tally :: "nat \<Rightarrow> grid \<Rightarrow> nat \<Rightarrow> tally" where
  "row_tally N prev i = sum_tally (cell_tally prev i) [1..<Suc N]"

definition worker_tally :: "nat \<Rightarrow> nat \<Rightarrow> nat \<Rightarrow> grid \<Rightarrow> tally" where
  "worker_tally T N t prev = sum_tally (row_tally N prev) [first_row T N t..<Suc (last_row T N t)]"

text \<open>The array in which the cells of the rows in \<open>R\<close> and the columns \<open>1..N\<close> hold their next state.\<close>

definition life_step :: "nat \<Rightarrow> (nat \<Rightarrow> bool) \<Rightarrow> grid \<Rightarrow> grid \<Rightarrow> grid" where
  "life_step N R prev cur =
     map (\<lambda>i. map (\<lambda>j. if R i \<and> 1 \<le> j \<and> j \<le> N then next_cell prev i j else cell cur i j)
                [0..<N + 2]) [0..<N + 2]"

text \<open>The loop over the columns of row \<open>i\<close>, stopped before column \<open>k\<close>.\<close>

definition cols_step :: "nat \<Rightarrow> nat \<Rightarrow> nat \<Rightarrow> grid \<Rightarrow> grid \<Rightarrow> grid" where
  "cols_step N i k prev cur =
     map (\<lambda>i'. map (\<lambda>j. if i' = i \<and> 1 \<le> j \<and> j < k then next_cell prev i j else cell cur i' j)
                [0..<N + 2]) [0..<N + 2]"

definition sim_wf :: "nat \<Rightarrow> sim \<Rightarrow> bool" where
  "sim_wf N s \<longleftrightarrow> wf_grid N (grid0 s) \<and> wf_grid N (grid1 s)"

text \<open>What the first phase leaves after the workers in \<open>ts\<close> have swept and reset.\<close>

definition computed ::
  "nat \<Rightarrow> nat \<Rightarrow> nat \<Rightarrow> nat \<Rightarrow> nat \<Rightarrow> sim \<Rightarrow> nat list \<Rightarrow> sim \<times> (nat \<Rightarrow> tally) \<Rightarrow> bool" where
  "computed T N iter cur prev s ts r \<longleftrightarrow>
     buf (fst r) cur =
       life_step N (\<lambda>i. \<exists>t\<in>set ts. covers T N t i) (buf s prev) (buf s cur) \<and>
     buf (fst r) prev = buf s prev \<and>
     stdout (fst r) = stdout s @ (if 0 \<in> set ts then [Iteration iter] else []) \<and>
     sim.more (fst r) = sim.more s \<and>
     (ts \<noteq> [] \<longrightarrow> live_count (fst r) = 0 \<and> birth_count (fst r) = 0 \<and> death_count (fst r) = 0) \<and>
     snd r = (\<lambda>t. if t \<in> set ts then worker_tally T N t (buf s prev) else zero_tally)"

text \<open>The local counters of all workers together.\<close>

definition total_live :: "nat \<Rightarrow> nat \<Rightarrow> grid \<Rightarrow> int" where
  "total_live T N prev = (\<Sum>t<T. local_live_count (worker_tally T N t prev))"

definition total_birth :: "nat \<Rightarrow> nat \<Rightarrow> grid \<Rightarrow> int" where
  "total_birth T N prev = (\<Sum>t<T. local_birth_count (worker_tally T N t prev))"

definition total_death :: "nat \<Rightarrow> nat \<Rightarrow> grid \<Rightarrow> int" where
  "total_death T N prev = (\<Sum>t<T. local_death_count (worker_tally T N t prev))"

text \<open>The cells of worker \<open>t\<close> that satisfy \<open>P\<close>.\<close>

definition worker_cells :: "nat \<Rightarrow> nat \<Rightarrow> nat \<Rightarrow> (nat \<Rightarrow> nat \<Rightarrow> bool) \<Rightarrow> (nat \<times> nat) set" where
  "worker_cells T N t P = {(i, j). covers T N t i \<and> 1 \<le> j \<and> j \<le> N \<and> P i j}"

definition valid_schedule :: "nat \<Rightarrow> (nat \<Rightarrow> nat list) \<Rightarrow> bool" where
  "valid_schedule T sched \<longleftrightarrow> (\<forall>iter. distinct (sched iter) \<and> set (sched iter) = {..<T})"

text \<open>The array \<open>cur\<close> with \<open>f i j\<close> written to the cells of the rows in \<open>R\<close> and columns in \<open>C\<close>.\<close>

definition fill ::
  "nat \<Rightarrow> (nat \<Rightarrow> bool) \<Rightarrow> (nat \<Rightarrow> bool) \<Rightarrow> (nat \<Rightarrow> nat \<Rightarrow> int) \<Rightarrow> grid \<Rightarrow> grid" where
  "fill N R C f cur =
     map (\<lambda>i. map (\<lambda>j. if R i \<and> C j then f i j else cell cur i j) [0..<N + 2]) [0..<N + 2]"

definition zero_grid :: "nat \<Rightarrow> grid" where
  "zero_grid N = replicate (N + 2) (replicate (N + 2) 0)"

text \<open>The value the loop of lines 153-160 stores in cell \<open>(i, j)\<close>.\<close>

definition seed_value :: "nat \<Rightarrow> real \<Rightarrow> (nat \<Rightarrow> real) \<Rightarrow> nat \<Rightarrow> nat \<Rightarrow> int" where
  "seed_value N pct drand48 i j = (if drand48 ((i - 1) * N + (j - 1)) < pct then 1 else 0)"

text \<open>The interior after the seeding, the halo untouched.\<close>

definition seeded_grid :: "nat \<Rightarrow> real \<Rightarrow> (nat \<Rightarrow> real) \<Rightarrow> grid" where
  "seeded_grid N pct d =
     fill N (\<lambda>r. 1 \<le> r \<and> r < Suc N) (\<lambda>j. 1 \<le> j \<and> j < Suc N) (seed_value N pct d) (zero_grid N)"

text \<open>Inputs of the examples: the all-live interior of side 3 and its successor.\<close>

definition live3 :: grid where
  "live3 = [[0, 0, 0, 0, 0], [0, 1, 1, 1, 0], [0, 1, 1, 1, 0], [0, 1, 1, 1, 0], [0, 0, 0, 0, 0]]"

definition corners3 :: grid where
  "corners3 = [[0, 0, 0, 0, 0], [0, 1, 0, 1, 0], [0, 0, 0, 0, 0], [0, 1, 0, 1, 0], [0, 0, 0, 0, 0]]"

text \<open>An environment in which every call succeeds and \<open>drand48\<close> returns 0.\<close>

definition quiet_env :: env where
  "quiet_env =
     \<lparr>heap0 = (\<lambda>i j. 0), heap1 = (\<lambda>i j. 0), drand48_after = (\<lambda>seed k. 0),
      barrier_init_rc = 0, mutex_init_rc = 0, create_rc = (\<lambda>thread. 0),
      schedule = (\<lambda>iter. [0])\<rparr>"

definition args_3x3 :: args where
  "args_3x3 = \<lparr>arg_num_threads = 1, arg_gridsize = 3, arg_init_pct = 1, arg_num_iters = 1\<rparr>"

subsection \<open>The halo\<close>

text \<open>Cell \<open>(i, j)\<close> lies in row or column \<open>0\<close> or \<open>gridsize + 1\<close> of the array.\<close>

definition halo :: "nat \<Rightarrow> nat \<Rightarrow> nat \<Rightarrow> bool" where
  "halo gridsize i j \<longleftrightarrow>
     i \<le> gridsize + 1 \<and> j \<le> gridsize + 1 \<and>
     (i = 0 \<or> i = gridsize + 1 \<or> j = 0 \<or> j = gridsize + 1)"

definition args_two_workers :: args where
  "args_two_workers =
     \<lparr>arg_num_threads = 2, arg_gridsize = 3, arg_init_pct = 1, arg_num_iters = 1\<rparr>"

subsection \<open>Startup failures\<close>

text \<open>An environment in which \<open>pthread_barrier_init\<close> fails with \<open>EINVAL\<close>, as it does for a
  count of 0 workers, and the command line of a run without workers.\<close>

definition barrier_fails_env :: env where
  "barrier_fails_env =
     \<lparr>heap0 = (\<lambda>i j. 0), heap1 = (\<lambda>i j. 0), drand48_after = (\<lambda>seed k. 0),
      barrier_init_rc = 22, mutex_init_rc = 0, create_rc = (\<lambda>thread. 0),
      schedule = (\<lambda>iter. [])\<rparr>"

definition args_no_workers :: args where
  "args_no_workers =
     \<lparr>arg_num_threads = 0, arg_gridsize = 3, arg_init_pct = 1, arg_num_iters = 1\<rparr>"

text \<open>An environment in which the second call of \<open>pthread_create\<close> fails with \<open>EAGAIN\<close>.\<close>

definition create_fails_env :: env where
  "create_fails_env =
     \<lparr>heap0 = (\<lambda>i j. 0), heap1 = (\<lambda>i j. 0), drand48_after = (\<lambda>seed k. 0),
      barrier_init_rc = 0, mutex_init_rc = 0, create_rc = (\<lambda>thread. if thread = 1 then 11 else 0),
      schedule = (\<lambda>iter. [0, 1])\<rparr>"

subsection \<open>One worker and several\<close>

text \<open>The two arrays of a completed run.\<close>

definition final_grids :: "outcome \<Rightarrow> (grid \<times> grid) option" where
  "final_grids r =
     (case r of
        Completed s \<Rightarrow> Some (grid0 s, grid1 s)
      | Exited status line \<Rightarrow> None
      | Undefined_behaviour \<Rightarrow> None)"

text \<open>Three workers in the order of their numbers.\<close>

definition three_workers_env :: env where
  "three_workers_env =
     \<lparr>heap0 = (\<lambda>i j. 0), heap1 = (\<lambda>i j. 0), drand48_after = (\<lambda>seed k. 0),
      barrier_init_rc = 0, mutex_init_rc = 0, create_rc = (\<lambda>thread. 0),
      schedule = (\<lambda>iter. [0, 1, 2])\<rparr>"

text \<open>An environment that differs from \<open>quiet_env\<close> in all but the generator seeded with 0,
  the calls of \<open>pthread_create\<close> and the order of the workers.\<close>

definition noisy_env :: env where
  "noisy_env =
     \<lparr>heap0 = (\<lambda>i j. 7), heap1 = (\<lambda>i j. int i - 9),
      drand48_after = (\<lambda>seed k. if seed = 0 then 0 else 1 / 2),
      barrier_init_rc = 0, mutex_init_rc = 0, create_rc = (\<lambda>thread. 0),
      schedule = (\<lambda>iter. [0])\<rparr>"

text \<open>Two workers in the order of their numbers.\<close>

definition two_workers_env :: env where
  "two_workers_env =
     \<lparr>heap0 = (\<lambda>i j. 0), heap1 = (\<lambda>i j. 0), drand48_after = (\<lambda>seed k. 0),
      barrier_init_rc = 0, mutex_init_rc = 0, create_rc = (\<lambda>thread. 0),
      schedule = (\<lambda>iter. [0, 1])\<rparr>"

subsection \<open>The workers as interleaved threads\<close>

text \<open>
  The places of \<open>thread_compute\<close> at which a worker can be between two steps: at the head of
  the loop (line 55), before the reset of line 91, inside the barrier wait of line 94, before
  the locked addition of lines 98-102, inside the barrier wait of line 105, before the report
  of line 108, and after the return of line 114.
\<close>

datatype pc = Loop_head | Line_91 | Line_94 | Line_98 | Line_105 | Line_108 | Returned

text \<open>The local variables of a worker: \<open>iter\<close>, \<open>curr\<close>, \<open>prev\<close> and the local counters.\<close>

record worker =
  w_pc :: pc
  w_iter :: nat
  w_curr :: nat
  w_prev :: nat
  w_local :: tally

record pool =
  shared :: sim
  workers :: "nat \<Rightarrow> worker"

text \<open>Lines 40-55: every worker starts at the head of the loop with \<open>iter = 1\<close>, \<open>curr = 0\<close>
  and \<open>prev = 1\<close>.\<close>

definition start_pool :: "sim \<Rightarrow> pool" where
  "start_pool s =
     \<lparr>shared = s,
      workers = (\<lambda>t. \<lparr>w_pc = Loop_head, w_iter = 1, w_curr = 0, w_prev = 1,
                       w_local = zero_tally\<rparr>)\<rparr>"

text \<open>
  One step of worker \<open>t\<close>; \<open>None\<close> when it cannot move (it waits in a barrier or has
  returned). The sweep of lines 56-87 is one step: the sweeps of an iteration read
  \<open>grid[prev]\<close> and write disjoint rows of \<open>grid[curr]\<close>. The addition is one step under the
  mutex. The reset and the report are single steps of their worker.
\<close>

definition thread_step :: "nat \<Rightarrow> nat \<Rightarrow> nat \<Rightarrow> nat \<Rightarrow> pool \<Rightarrow> pool option" where
  "thread_step num_threads gridsize num_iters t p =
     (let w = workers p t in
      case w_pc w of
        Loop_head \<Rightarrow>
          if w_iter w \<le> num_iters then
            let cur = 1 - w_curr w; prev = 1 - w_prev w;
                r = compute_part num_threads gridsize t (w_iter w) cur prev (shared p)
            in Some \<lparr>shared = fst r,
                     workers = (workers p)(t := w\<lparr>w_pc := Line_91, w_curr := cur, w_prev := prev,
                                                  w_local := snd r\<rparr>)\<rparr>
          else Some (p\<lparr>workers := (workers p)(t := w\<lparr>w_pc := Returned\<rparr>)\<rparr>)
      | Line_91 \<Rightarrow>
          Some \<lparr>shared = reset (shared p), workers = (workers p)(t := w\<lparr>w_pc := Line_94\<rparr>)\<rparr>
      | Line_94 \<Rightarrow> None
      | Line_98 \<Rightarrow>
          Some \<lparr>shared = accumulate (w_local w) (shared p),
                workers = (workers p)(t := w\<lparr>w_pc := Line_105\<rparr>)\<rparr>
      | Line_105 \<Rightarrow> None
      | Line_108 \<Rightarrow>
          Some \<lparr>shared = report t (shared p),
                workers = (workers p)(t := w\<lparr>w_pc := Loop_head, w_iter := w_iter w + 1\<rparr>)\<rparr>
      | Returned \<Rightarrow> None)"

text \<open>
  The barrier, initialised for \<open>num_threads\<close> waiters on line 166, releases its waiters when
  that many workers wait in it, at whichever of the two calls each of them is.
\<close>

definition waiting :: "worker \<Rightarrow> bool" where
  "waiting w \<longleftrightarrow> w_pc w = Line_94 \<or> w_pc w = Line_105"

definition released :: "worker \<Rightarrow> worker" where
  "released w =
     (if w_pc w = Line_94 then w\<lparr>w_pc := Line_98\<rparr>
      else if w_pc w = Line_105 then w\<lparr>w_pc := Line_108\<rparr>
      else w)"

datatype action = Step nat | Release

definition fire :: "nat \<Rightarrow> nat \<Rightarrow> nat \<Rightarrow> action \<Rightarrow> pool \<Rightarrow> pool option" where
  "fire num_threads gridsize num_iters a p =
     (case a of
        Step t \<Rightarrow> if t < num_threads then thread_step num_threads gridsize num_iters t p else None
      | Release \<Rightarrow>
          if 0 < num_threads \<and> (\<forall>t \<in> set [0..<num_threads]. waiting (workers p t))
          then Some (p\<lparr>workers := (\<lambda>t. released (workers p t))\<rparr>)
          else None)"

text \<open>A run of the pool along a list of actions; \<open>None\<close> when an action is not enabled.\<close>

fun exec :: "nat \<Rightarrow> nat \<Rightarrow> nat \<Rightarrow> action list \<Rightarrow> pool \<Rightarrow> pool option" where
  "exec num_threads gridsize num_iters [] p = Some p"
| "exec num_threads gridsize num_iters (a # as) p =
     (case fire num_threads gridsize num_iters a p of
        None \<Rightarrow> None
      | Some p' \<Rightarrow> exec num_threads gridsize num_iters as p')"

text \<open>Two workers on an all-live interior of side 2, for two iterations.\<close>

definition args_2x2 :: args where
  "args_2x2 = \<lparr>arg_num_threads = 2, arg_gridsize = 2, arg_init_pct = 1, arg_num_iters = 2\<rparr>"

definition live2 :: sim where
  "live2 =
     \<lparr>grid0 = [[0, 0, 0, 0], [0, 1, 1, 0], [0, 1, 1, 0], [0, 0, 0, 0]],
      grid1 = [[0, 0, 0, 0], [0, 0, 0, 0], [0, 0, 0, 0], [0, 0, 0, 0]],
      live_count = 4, birth_count = 0, death_count = 0, stdout = [Initial 4 4]\<rparr>"

text \<open>Both workers run the first iteration up to the second barrier, which releases them.\<close>

definition first_reduction :: "action list" where
  "first_reduction =
     [Step 0, Step 1, Step 0, Step 1, Release, Step 0, Step 1]"

text \<open>Then either worker 0 reports at once, or worker 1 first goes through its second sweep
  and reset.\<close>

definition orderly :: "action list" where
  "orderly = first_reduction @ [Release, Step 0]"

definition racy :: "action list" where
  "racy = first_reduction @ [Release, Step 1, Step 1, Step 1, Step 0]"

text \<open>The sum over the workers that have passed the addition of lines 98-102.\<close>

definition added :: "nat \<Rightarrow> pool \<Rightarrow> (tally \<Rightarrow> int) \<Rightarrow> int" where
  "added T p f = (\<Sum>t<T. if w_pc (workers p t) = Line_105 then f (w_local (workers p t)) else 0)"

text \<open>Some worker is between the two barriers.\<close>

definition adding :: "nat \<Rightarrow> pool \<Rightarrow> bool" where
  "adding T p \<longleftrightarrow> (\<exists>t<T. w_pc (workers p t) = Line_98 \<or> w_pc (workers p t) = Line_105)"

text \<open>
  What holds of the pool at every moment, \<open>g\<close> being the number of iterations whose second
  barrier has been reached by a worker: between the barriers all workers are between the
  barriers and the shared counters hold what has been added; outside, the counters are zero
  once a worker waits in the first barrier; the workers from the first barrier up to the
  report are in iteration \<open>g\<close>, the others in iteration \<open>g + 1\<close>.
\<close>

definition pool_inv :: "nat \<Rightarrow> nat \<Rightarrow> pool \<Rightarrow> bool" where
  "pool_inv T g p \<longleftrightarrow>
     (adding T p \<longrightarrow>
        (\<forall>t<T. w_pc (workers p t) = Line_98 \<or> w_pc (workers p t) = Line_105) \<and>
        live_count (shared p) = added T p local_live_count \<and>
        birth_count (shared p) = added T p local_birth_count \<and>
        death_count (shared p) = added T p local_death_count) \<and>
     (\<not> adding T p \<longrightarrow> (\<exists>t<T. w_pc (workers p t) = Line_94) \<longrightarrow>
        live_count (shared p) = 0 \<and> birth_count (shared p) = 0 \<and> death_count (shared p) = 0) \<and>
     (\<forall>t<T. w_iter (workers p t) =
        (if w_pc (workers p t) = Line_98 \<or> w_pc (workers p t) = Line_105 \<or>
            w_pc (workers p t) = Line_108 then g else Suc g))"

text \<open>The local live counts of the workers \<open>0, \<dots>, T - 1\<close>.\<close>

definition local_lives :: "nat \<Rightarrow> pool \<Rightarrow> int list" where
  "local_lives T p = map (\<lambda>t. local_live_count (w_local (workers p t))) [0..<T]"

text \<open>The pools the workers can reach from the shared state \<open>s\<close>.\<close>

definition reachable :: "nat \<Rightarrow> nat \<Rightarrow> nat \<Rightarrow> sim \<Rightarrow> pool \<Rightarrow> bool" where
  "reachable T N n s p \<longleftrightarrow> (\<exists>acts. exec T N n acts (start_pool s) = Some p)"

subsection \<open>The interleaved workers compute the phased run\<close>

text \<open>The worker has swept in iteration \<open>g + 1\<close> and has not left the first barrier.\<close>

definition swept :: "worker \<Rightarrow> bool" where
  "swept w \<longleftrightarrow> w_pc w = Line_91 \<or> w_pc w = Line_94"

text \<open>
  The arrays and the local variables of the workers at every moment, \<open>g\<close> being as in
  \<open>pool_inv\<close> and \<open>s\<close> the state in which the workers started: the array that is current
  after \<open>g\<close> iterations is that of the phased run; the other one holds the next state in
  the rows of the workers that have swept already; a worker that has swept holds the local
  counters of its rows for iteration \<open>g + 1\<close>, a worker between the barriers those for
  iteration \<open>g\<close>.
\<close>

definition phase_inv :: "nat \<Rightarrow> nat \<Rightarrow> nat \<Rightarrow> sim \<Rightarrow> nat \<Rightarrow> pool \<Rightarrow> bool" where
  "phase_inv T N n s g p \<longleftrightarrow>
     g \<le> n \<and>
     buf (shared p) (cur_after g) = buf (state_after T N g s) (cur_after g) \<and>
     buf (shared p) (prev_after g) =
       life_step N (\<lambda>r. \<exists>t<T. swept (workers p t) \<and> covers T N t r)
         (buf (state_after T N g s) (cur_after g)) (buf (state_after T N g s) (prev_after g)) \<and>
     (\<forall>t<T.
        w_curr (workers p t) = (if swept (workers p t) then prev_after g else cur_after g) \<and>
        w_prev (workers p t) = (if swept (workers p t) then cur_after g else prev_after g) \<and>
        (swept (workers p t) \<longrightarrow>
           Suc g \<le> n \<and>
           w_local (workers p t) =
             worker_tally T N t (buf (state_after T N g s) (cur_after g))) \<and>
        (w_pc (workers p t) = Line_98 \<or> w_pc (workers p t) = Line_105 \<longrightarrow>
           1 \<le> g \<and>
           w_local (workers p t) =
             worker_tally T N t (buf (state_after T N (g - 1) s) (cur_after (g - 1)))) \<and>
        (w_pc (workers p t) = Returned \<longrightarrow> n < Suc g))"

subsection \<open>Runs of two workers\<close>

text \<open>Two workers on an all-live interior of side 4, for two iterations.\<close>

definition args_4x4 :: args where
  "args_4x4 = \<lparr>arg_num_threads = 2, arg_gridsize = 4, arg_init_pct = 1, arg_num_iters = 2\<rparr>"

definition live4 :: sim where
  "live4 =
     \<lparr>grid0 = [[0, 0, 0, 0, 0, 0], [0, 1, 1, 1, 1, 0], [0, 1, 1, 1, 1, 0], [0, 1, 1, 1, 1, 0],
               [0, 1, 1, 1, 1, 0], [0, 0, 0, 0, 0, 0]],
      grid1 = [[0, 0, 0, 0, 0, 0], [0, 0, 0, 0, 0, 0], [0, 0, 0, 0, 0, 0], [0, 0, 0, 0, 0, 0],
               [0, 0, 0, 0, 0, 0], [0, 0, 0, 0, 0, 0]],
      live_count = 16, birth_count = 0, death_count = 0, stdout = [Initial 16 16]\<rparr>"

text \<open>The numbers of cells of the interior that are 0 in \<open>prev\<close> and not in \<open>cur\<close>, and
  that are not 0 in \<open>prev\<close> and 0 in \<open>cur\<close>.\<close>

definition births_between :: "nat \<Rightarrow> grid \<Rightarrow> grid \<Rightarrow> int" where
  "births_between N prev cur =
     int (length (filter (\<lambda>(i, j). cell prev i j = 0 \<and> cell cur i j \<noteq> 0)
                    (List.product [1..<Suc N] [1..<Suc N])))"

definition deaths_between :: "nat \<Rightarrow> grid \<Rightarrow> grid \<Rightarrow> int" where
  "deaths_between N prev cur =
     int (length (filter (\<lambda>(i, j). cell prev i j \<noteq> 0 \<and> cell cur i j = 0)
                    (List.product [1..<Suc N] [1..<Suc N])))"

text \<open>Two complete runs of two workers for two iterations: in the first every report comes
  before any step of the next iteration; in the second worker 1 has swept and reset for
  iteration 2 when worker 0 reports iteration 1.\<close>

definition orderly_run :: "action list" where
  "orderly_run =
     orderly @ [Step 1] @ first_reduction @ [Release, Step 0, Step 1, Step 0, Step 1]"

definition racy_run :: "action list" where
  "racy_run =
     racy @ [Step 0, Step 0, Release, Step 0, Step 1, Release, Step 0, Step 1, Step 0, Step 1]"

text \<open>The places at which the workers \<open>0, \<dots>, T - 1\<close> are.\<close>

definition places :: "nat \<Rightarrow> pool \<Rightarrow> pc list" where
  "places T p = map (\<lambda>t. w_pc (workers p t)) [0..<T]"

subsection \<open>A run in lockstep\<close>

text \<open>Every worker takes one step, in the order of the thread numbers.\<close>

definition all_step :: "nat \<Rightarrow> action list" where
  "all_step T = map Step [0..<T]"

text \<open>One iteration of the pool (sweeps, resets, first barrier, additions, second barrier,
  reports) and the run of \<open>n\<close> iterations, after which every worker leaves the loop.\<close>

definition lockstep_iteration :: "nat \<Rightarrow> action list" where
  "lockstep_iteration T =
     all_step T @ all_step T @ [Release] @ all_step T @ [Release] @ all_step T"

definition lockstep :: "nat \<Rightarrow> nat \<Rightarrow> action list" where
  "lockstep T n = concat (replicate n (lockstep_iteration T)) @ all_step T"

text \<open>All workers are at the same place of the same iteration.\<close>

definition uniform :: "nat \<Rightarrow> pc \<Rightarrow> nat \<Rightarrow> pool \<Rightarrow> bool" where
  "uniform T X i p \<longleftrightarrow> (\<forall>t<T. w_pc (workers p t) = X \<and> w_iter (workers p t) = i)"

text \<open>Where a step of a worker leads from place \<open>X\<close> in iteration \<open>i\<close>.\<close>

definition next_pc :: "nat \<Rightarrow> pc \<Rightarrow> nat \<Rightarrow> pc" where
  "next_pc n X i =
     (case X of
        Loop_head \<Rightarrow> if i \<le> n then Line_91 else Returned
      | Line_91 \<Rightarrow> Line_94
      | Line_98 \<Rightarrow> Line_105
      | Line_108 \<Rightarrow> Loop_head
      | _ \<Rightarrow> X)"

definition next_iter :: "pc \<Rightarrow> nat \<Rightarrow> nat" where
  "next_iter X i = (if X = Line_108 then i + 1 else i)"

text \<open>A generator whose values number 3, 4 and 5 are below one half: with \<open>gridsize = 3\<close> and
  \<open>init_pct = 0.5\<close> the seeding makes the middle row of the interior live.\<close>

definition blinker_env :: env where
  "blinker_env =
     \<lparr>heap0 = (\<lambda>i j. 0), heap1 = (\<lambda>i j. 0),
      drand48_after = (\<lambda>seed k. if 3 \<le> k \<and> k \<le> 5 then 0 else 1),
      barrier_init_rc = 0, mutex_init_rc = 0, create_rc = (\<lambda>thread. 0),
      schedule = (\<lambda>iter. [0])\<rparr>"

definition args_blinker :: args where
  "args_blinker =
     \<lparr>arg_num_threads = 1, arg_gridsize = 3, arg_init_pct = 1 / 2, arg_num_iters = 1\<rparr>"

definition blinker :: grid where
  "blinker = [[0, 0, 0, 0, 0], [0, 0, 0, 0, 0], [0, 1, 1, 1, 0], [0, 0, 0, 0, 0], [0, 0, 0, 0, 0]]"

section \<open>Properties\<close>

subsection \<open>Row ranges\<close>

lemma div_sum_le: "(a::nat) div c + b div c \<le> (a + b) div c"
proof (cases "c = 0")
  case True
  then show ?thesis by simp
next
  case False
  have "(a div c + b div c) * c \<le> a + b"
    by (simp add: add_mult_distrib add_mono)
  with False show ?thesis
    by (simp add: less_eq_div_iff_mult_less_eq)
qed

lemma last_row_eq: "last_row T N t = t * N div T + N div T"
  by (simp add: last_row_def first_row_def)

lemma end_lt_start:
  assumes "t1 < t2"
  shows "last_row T N t1 < first_row T N t2"
proof -
  have "t1 * N div T + N div T \<le> (t1 * N + N) div T"
    by (rule div_sum_le)
  also have "\<dots> = (Suc t1 * N) div T"
    by (simp add: add.commute)
  also have "\<dots> \<le> t2 * N div T"
    using assms by (intro div_le_mono mult_le_mono1) simp
  finally show ?thesis
    by (simp add: last_row_eq first_row_def)
qed

lemma covers_unique:
  assumes "covers T N t1 r" and "covers T N t2 r"
  shows "t1 = t2"
proof (rule ccontr)
  assume "t1 \<noteq> t2"
  then consider "t1 < t2" | "t2 < t1" by linarith
  then show False
  proof cases
    case 1
    from end_lt_start [OF 1, of T N] assms show False
      by (simp add: covers_def)
  next
    case 2
    from end_lt_start [OF 2, of T N] assms show False
      by (simp add: covers_def)
  qed
qed

lemma first_row_ge1: "1 \<le> first_row T N t"
  by (simp add: first_row_def)

lemma last_row_le:
  assumes "t < T"
  shows "last_row T N t \<le> N"
proof -
  have "t * N div T + N div T \<le> (Suc t * N) div T"
    using div_sum_le [of "t * N" T N] by (simp add: add.commute)
  also have "\<dots> \<le> (T * N) div T"
    using assms by (intro div_le_mono mult_le_mono1) simp
  also have "\<dots> = N"
    using assms by simp
  finally show ?thesis
    by (simp add: last_row_eq)
qed

lemma rows_dvd:
  assumes "0 < T" and "N = T * q"
  shows "first_row T N t = t * q + 1" and "last_row T N t = t * q + q"
  using assms by (simp_all add: last_row_eq first_row_def)

lemma covers_dvd_ex:
  assumes "1 \<le> T" and "T dvd N" and "1 \<le> r" and "r \<le> N"
  shows "\<exists>t<T. covers T N t r"
proof -
  from assms(2) obtain q where N: "N = T * q" by (auto simp: dvd_def)
  with assms have q: "0 < q" by (cases q) auto
  define t where "t = (r - 1) div q"
  have "r - 1 < T * q" using assms N by simp
  then have tT: "t < T"
    unfolding t_def using q by (simp add: less_mult_imp_div_less mult.commute)
  have "t * q \<le> r - 1" unfolding t_def by simp
  moreover have "r - 1 < t * q + q"
    unfolding t_def using q
    by (metis div_mult_mod_eq mod_less_divisor nat_add_left_cancel_less)
  ultimately have "covers T N t r"
    using assms rows_dvd [of T N q t] N by (simp add: covers_def) linarith
  with tT show ?thesis by blast
qed

subsection \<open>The ints of the row ranges stay in range\<close>

lemma int32_id: "- 2147483648 \<le> x \<Longrightarrow> x < 2147483648 \<Longrightarrow> int32 x = x"
  by (simp add: int32_def)

lemma c_div_nat: "c_div (int a) (int b) = int (a div b)"
  by (cases "a = 0"; cases "b = 0") (simp_all add: c_div_def zdiv_int)

lemma fits_int_le:
  assumes "fits_int T N" and "t < T"
  shows "t * N < 2147483648" and "t * N div T + 1 < 2147483648"
    and "t * N div T + 1 + N div T < 2147483648"
proof -
  have le: "t * N \<le> T * N" by (rule mult_le_mono1) (use assms(2) in simp)
  then show p: "t * N < 2147483648" using assms(1) unfolding fits_int_def by linarith
  have N: "N + 1 < 2147483648"
  proof (cases "N \<le> 1")
    case True
    then show ?thesis by simp
  next
    case False
    then have "N + 1 \<le> N * N" by (cases N) (simp_all add: Suc_le_eq)
    with assms(1) show ?thesis by (simp add: fits_int_def)
  qed
  have "t * N div T + N div T \<le> N"
    using last_row_le [OF assms(2), of N] by (simp add: last_row_eq)
  with N show "t * N div T + 1 + N div T < 2147483648" by simp
  then show "t * N div T + 1 < 2147483648" by simp
qed

lemma fits_int_fewer:
  assumes "fits_int T N"
  shows "fits_int 1 N" and "fits_int 0 N"
proof -
  have "N \<le> N * N" by (cases N) simp_all
  with assms have "N < 2147483648" and "N * N < 2147483648"
    unfolding fits_int_def by linarith+
  then show "fits_int 1 N" and "fits_int 0 N"
    by (simp_all add: fits_int_def)
qed

text \<open>Within \<open>fits_int\<close> the bounds of a worker are those computed in natural numbers.\<close>

lemma start_row_nat:
  assumes "fits_int T N" and "t < T"
  shows "start_row T N t = int (first_row T N t)"
proof -
  note b = fits_int_le [OF assms]
  have "int t * int N < 2147483648" and "- 2147483648 \<le> int t * int N"
    using b(1) by (simp_all flip: of_nat_mult)
  then have 1: "int32 (int t * int N) = int (t * N)"
    by (simp add: int32_id)
  have 2: "int32 (int (t * N div T) + 1) = int (t * N div T + 1)"
    using b(2) by (simp add: int32_id)
  show ?thesis
    unfolding start_row_def first_row_def 1 c_div_nat 2 ..
qed

lemma end_row_nat:
  assumes "fits_int T N" and "t < T"
  shows "end_row T N t = int (last_row T N t)"
proof -
  note b = fits_int_le [OF assms]
  have 1: "int32 (int (first_row T N t) + int (N div T)) = int (first_row T N t) + int (N div T)"
    using b(3) by (simp add: int32_id first_row_def)
  have 2: "int32 (int (first_row T N t) + int (N div T) - 1) =
      int (first_row T N t) + int (N div T) - 1"
    using b(3) by (simp add: int32_id first_row_def)
  have "end_row T N t = int (first_row T N t) + int (N div T) - 1"
    unfolding end_row_def start_row_nat [OF assms] c_div_nat 1 2 ..
  then show ?thesis
    by (simp add: last_row_def first_row_def)
qed

lemma upto_nat: "map nat [int a..int b] = [a..<Suc b]"
proof (induction b)
  case 0
  show ?case by (cases a) simp_all
next
  case (Suc b)
  show ?case
  proof (cases "a \<le> Suc b")
    case True
    then have "[int a..int (Suc b)] = [int a..int b] @ [int (Suc b)]"
      using upto_rec2 [of "int a" "int (Suc b)"] by simp
    with Suc True show ?thesis by simp
  next
    case False
    then show ?thesis by simp
  qed
qed

lemma rows_nat:
  assumes "fits_int T N" and "t < T"
  shows "map nat (rows T N t) = [first_row T N t..<Suc (last_row T N t)]"
  unfolding rows_def start_row_nat [OF assms] end_row_nat [OF assms] by (rule upto_nat)

lemma owns_int:
  assumes "fits_int T N" and "t < T"
  shows "owns T N t (int r) \<longleftrightarrow> covers T N t r"
  unfolding owns_def covers_def start_row_nat [OF assms] end_row_nat [OF assms] by simp

lemma owned_int:
  assumes "fits_int T N"
  shows "owned T N (int r) \<longleftrightarrow> covered T N r"
  unfolding owned_def covered_def using owns_int [OF assms] by auto

lemma in_arrays_fits:
  assumes "fits_int T N" and "t < T"
  shows "in_arrays T N t"
  unfolding in_arrays_def rows_def start_row_nat [OF assms] end_row_nat [OF assms]
  using first_row_ge1 [of T N t] last_row_le [OF assms(2), of N] by auto

lemma thread_sweep_nat:
  assumes "fits_int T N" and "t < T"
  shows "thread_sweep T N t prev cur =
     fold (visit_row N prev) [first_row T N t..<Suc (last_row T N t)] (cur, zero_tally)"
  unfolding thread_sweep_def rows_nat [OF assms] using in_arrays_fits [OF assms] by simp

subsection \<open>The sweep of a worker\<close>

lemma cell_set_cell:
  assumes "i < length g" and "j < length (g ! i)"
  shows "cell (set_cell g i j v) i' j' = (if i' = i \<and> j' = j then v else cell g i' j')"
  using assms by (auto simp: cell_def set_cell_def nth_list_update)

lemma wf_set_cell: "wf_grid N g \<Longrightarrow> wf_grid N (set_cell g i j v)"
proof -
  assume wf: "wf_grid N g"
  have "length (g[i := (g ! i)[j := v]] ! k) = N + 2" if "k < N + 2" for k
    using wf that by (cases "k = i") (simp_all add: wf_grid_def)
  with wf show ?thesis
    by (simp add: wf_grid_def set_cell_def)
qed

lemma cell_set_cell_wf:
  assumes "wf_grid N g" and "i < N + 2" and "j < N + 2"
  shows "cell (set_cell g i j v) i' j' = (if i' = i \<and> j' = j then v else cell g i' j')"
  using assms by (intro cell_set_cell) (auto simp: wf_grid_def)

lemma visit_cell_eq:
  assumes "wf_grid N cur" and "i < N + 2" and "j < N + 2"
  shows "visit_cell prev i j (cur, c) =
           (set_cell cur i j (next_cell prev i j), add_tally c (cell_tally prev i j))"
  using assms
  by (simp add: visit_cell_def next_cell_def cell_tally_def add_tally_def is_birth_def
      is_death_def cell_set_cell_wf [OF assms] Let_def)

lemma add_tally_assoc: "add_tally (add_tally a b) c = add_tally a (add_tally b c)"
  by (simp add: add_tally_def)

lemma add_tally_zero [simp]: "add_tally a zero_tally = a" "add_tally zero_tally a = a"
  by (simp_all add: add_tally_def zero_tally_def)

lemma sum_tally_snoc: "sum_tally f (xs @ [x]) = add_tally (sum_tally f xs) (f x)"
  by (simp add: sum_tally_def)

lemma sum_tally_Nil [simp]: "sum_tally f [] = zero_tally"
  by (simp add: sum_tally_def)

lemma wf_life_step [simp]: "wf_grid N (life_step N R prev cur)"
  by (simp add: wf_grid_def life_step_def del: upt_Suc)

lemma cell_life_step:
  assumes "i < N + 2" and "j < N + 2"
  shows "cell (life_step N R prev cur) i j =
           (if R i \<and> 1 \<le> j \<and> j \<le> N then next_cell prev i j else cell cur i j)"
  using assms by (simp add: cell_def life_step_def del: upt_Suc)

lemma grid_eqI:
  assumes "wf_grid N g" and "wf_grid N g'"
    and "\<And>i j. i < N + 2 \<Longrightarrow> j < N + 2 \<Longrightarrow> cell g i j = cell g' i j"
  shows "g = g'"
proof (rule nth_equalityI)
  show "length g = length g'" using assms by (simp add: wf_grid_def)
next
  fix i assume "i < length g"
  then have i: "i < N + 2" using assms(1) by (simp add: wf_grid_def)
  show "g ! i = g' ! i"
  proof (rule nth_equalityI)
    show "length (g ! i) = length (g' ! i)" using assms i by (simp add: wf_grid_def)
  next
    fix j assume "j < length (g ! i)"
    then have "j < N + 2" using assms(1) i by (simp add: wf_grid_def)
    with assms(3) [OF i] show "g ! i ! j = g' ! i ! j" by (simp add: cell_def)
  qed
qed

lemma life_step_none:
  assumes "wf_grid N cur" and "\<And>i. i < N + 2 \<Longrightarrow> \<not> R i"
  shows "life_step N R prev cur = cur"
  by (rule grid_eqI [of N]) (use assms in \<open>simp_all add: cell_life_step\<close>)

lemma life_step_cong:
  assumes "\<And>i. i < N + 2 \<Longrightarrow> R i = R' i"
  shows "life_step N R prev cur = life_step N R' prev cur"
  by (rule grid_eqI [of N]) (use assms in \<open>simp_all add: cell_life_step\<close>)

lemma life_step_life_step:
  "life_step N R prev (life_step N R' prev cur) = life_step N (\<lambda>i. R i \<or> R' i) prev cur"
  by (rule grid_eqI [of N]) (auto simp: cell_life_step)

lemma wf_cols_step [simp]: "wf_grid N (cols_step N i k prev cur)"
  by (simp add: wf_grid_def cols_step_def del: upt_Suc)

lemma cell_cols_step:
  assumes "i' < N + 2" and "j < N + 2"
  shows "cell (cols_step N i k prev cur) i' j =
           (if i' = i \<and> 1 \<le> j \<and> j < k then next_cell prev i j else cell cur i' j)"
  using assms by (simp add: cell_def cols_step_def del: upt_Suc)

lemma visit_cols:
  assumes "wf_grid N cur" and "i < N + 2" and "k \<le> N + 2"
  shows "fold (visit_cell prev i) [1..<k] (cur, c) =
           (cols_step N i k prev cur, add_tally c (sum_tally (cell_tally prev i) [1..<k]))"
  using assms(3)
proof (induction k)
  case 0
  have "cols_step N i 0 prev cur = cur"
    by (rule grid_eqI [of N]) (use assms in \<open>simp_all add: cell_cols_step\<close>)
  then show ?case by simp
next
  case (Suc k)
  show ?case
  proof (cases "1 \<le> k")
    case False
    have "cols_step N i (Suc k) prev cur = cur"
      by (rule grid_eqI [of N]) (use assms False in \<open>simp_all add: cell_cols_step\<close>)
    with False show ?thesis by simp
  next
    case True
    have k: "k < N + 2" using Suc.prems by simp
    have "set_cell (cols_step N i k prev cur) i k (next_cell prev i k) =
            cols_step N i (Suc k) prev cur"
      by (rule grid_eqI [of N])
        (use assms k True in \<open>auto simp: wf_set_cell cell_cols_step
           cell_set_cell_wf [OF wf_cols_step assms(2) k]\<close>)
    then show ?thesis
      using True Suc k visit_cell_eq [OF wf_cols_step assms(2) k]
      by (simp add: sum_tally_snoc add_tally_assoc)
  qed
qed

lemma visit_row_eq:
  assumes "wf_grid N cur" and "i < N + 2"
  shows "visit_row N prev i (cur, c) =
           (life_step N (\<lambda>r. r = i) prev cur, add_tally c (row_tally N prev i))"
proof -
  have "cols_step N i (Suc N) prev cur = life_step N (\<lambda>r. r = i) prev cur"
    by (rule grid_eqI [of N]) (auto simp: cell_cols_step cell_life_step)
  then show ?thesis
    using visit_cols [OF assms, of "Suc N" prev c]
    by (simp add: visit_row_def row_tally_def)
qed

lemma visit_rows:
  assumes "wf_grid N cur" and "b \<le> N + 2"
  shows "fold (visit_row N prev) [a..<b] (cur, c) =
           (life_step N (\<lambda>r. a \<le> r \<and> r < b) prev cur,
            add_tally c (sum_tally (row_tally N prev) [a..<b]))"
  using assms(2)
proof (induction b)
  case 0
  then show ?case using assms(1) by (simp add: life_step_none)
next
  case (Suc b)
  show ?case
  proof (cases "a \<le> b")
    case False
    then have "life_step N (\<lambda>r. a \<le> r \<and> r < Suc b) prev cur = cur"
      by (intro life_step_none assms(1)) simp
    with False show ?thesis by simp
  next
    case True
    have b: "b < N + 2" using Suc.prems by simp
    have "life_step N (\<lambda>r. r = b) prev (life_step N (\<lambda>r. a \<le> r \<and> r < b) prev cur) =
            life_step N (\<lambda>r. a \<le> r \<and> r < Suc b) prev cur"
      unfolding life_step_life_step by (rule life_step_cong) (use True in auto)
    moreover have "fold (visit_row N prev) [a..<b] (cur, c) =
           (life_step N (\<lambda>r. a \<le> r \<and> r < b) prev cur,
            add_tally c (sum_tally (row_tally N prev) [a..<b]))"
      using Suc by simp
    moreover have "[a..<Suc b] = [a..<b] @ [b]"
      using True by simp
    ultimately show ?thesis
      using visit_row_eq [OF wf_life_step b, of prev]
      by (simp add: sum_tally_snoc add_tally_assoc)
  qed
qed

lemma thread_sweep_eq:
  assumes fits: "fits_int T N" and "wf_grid N cur" and "t < T"
  shows "thread_sweep T N t prev cur =
           (life_step N (covers T N t) prev cur, worker_tally T N t prev)"
proof -
  have "Suc (last_row T N t) \<le> N + 2"
    using last_row_le [OF assms(3), of N] by simp
  from visit_rows [OF assms(2) this, of prev "first_row T N t" zero_tally]
  have "thread_sweep T N t prev cur =
          (life_step N (\<lambda>r. first_row T N t \<le> r \<and> r < Suc (last_row T N t)) prev cur,
           worker_tally T N t prev)"
    by (simp add: thread_sweep_nat [OF fits assms(3)] worker_tally_def)
  moreover have "life_step N (\<lambda>r. first_row T N t \<le> r \<and> r < Suc (last_row T N t)) prev cur =
      life_step N (covers T N t) prev cur"
    by (rule life_step_cong) (auto simp: covers_def)
  ultimately show ?thesis by simp
qed

lemma buf_set_buf [simp]:
  "buf (set_buf s b g) b' = (if (b = 0) = (b' = 0) then g else buf s b')"
  by (simp add: buf_def set_buf_def)

lemma buf_print [simp]: "buf (print e s) b = buf s b"
  by (simp add: buf_def print_def)

lemma buf_reset [simp]: "buf (reset s) b = buf s b"
  by (simp add: buf_def reset_def)

lemma buf_accumulate [simp]: "buf (accumulate c s) b = buf s b"
  by (simp add: buf_def accumulate_def)

lemma buf_report [simp]: "buf (report t s) b = buf s b"
  by (simp add: report_def)

lemma stdout_simps [simp]:
  "stdout (set_buf s b g) = stdout s"
  "stdout (print e s) = stdout s @ [e]"
  "stdout (reset s) = stdout s"
  "stdout (accumulate c s) = stdout s"
  by (simp_all add: set_buf_def print_def reset_def accumulate_def)

lemma counters_set_buf [simp]:
  "live_count (set_buf s b g) = live_count s"
  "birth_count (set_buf s b g) = birth_count s"
  "death_count (set_buf s b g) = death_count s"
  by (simp_all add: set_buf_def)

lemma counters_print [simp]:
  "live_count (print e s) = live_count s"
  "birth_count (print e s) = birth_count s"
  "death_count (print e s) = death_count s"
  by (simp_all add: print_def)

lemma counters_reset [simp]:
  "live_count (reset s) = 0" "birth_count (reset s) = 0" "death_count (reset s) = 0"
  by (simp_all add: reset_def)

lemma counters_accumulate [simp]:
  "live_count (accumulate c s) = live_count s + local_live_count c"
  "birth_count (accumulate c s) = birth_count s + local_birth_count c"
  "death_count (accumulate c s) = death_count s + local_death_count c"
  by (simp_all add: accumulate_def)

lemma counters_report [simp]:
  "live_count (report t s) = live_count s"
  "birth_count (report t s) = birth_count s"
  "death_count (report t s) = death_count s"
  by (simp_all add: report_def)

lemma stdout_report [simp]:
  "stdout (report t s) =
     stdout s @ (if t = 0 then [Counters (live_count s) (death_count s) (birth_count s)] else [])"
  by (simp add: report_def)

lemma more_simps [simp]:
  "sim.more (set_buf s b g) = sim.more s"
  "sim.more (print e s) = sim.more s"
  "sim.more (reset s) = sim.more s"
  "sim.more (accumulate c s) = sim.more s"
  "sim.more (report t s) = sim.more s"
  by (simp_all add: set_buf_def print_def reset_def accumulate_def report_def)

lemma compute_part_eq:
  assumes fits: "fits_int T N" and "wf_grid N (buf s cur)" and "t < T"
  shows "compute_part T N t iter cur prev s =
    (set_buf (if t = 0 then print (Iteration iter) s else s) cur
       (life_step N (covers T N t) (buf s prev) (buf s cur)),
     worker_tally T N t (buf s prev))"
  using assms(2-) by (simp add: compute_part_def Let_def thread_sweep_eq [OF fits])

lemma compute_phase_snoc:
  "compute_phase (ts @ [t]) T N iter cur prev s =
     (let r = compute_phase ts T N iter cur prev s;
          r' = compute_part T N t iter cur prev (fst r)
      in (reset (fst r'), (snd r)(t := snd r')))"
  by (simp add: compute_phase_def Let_def split_beta)

lemma compute_phase_computed:
  assumes fits: "fits_int T N" and "wf_grid N (buf s cur)" and "cur < 2" and "prev = 1 - cur"
    and "distinct ts" and "\<forall>t\<in>set ts. t < T"
  shows "computed T N iter cur prev s ts (compute_phase ts T N iter cur prev s)"
  using assms(5,6)
proof (induction ts rule: rev_induct)
  case Nil
  have "life_step N (\<lambda>i. False) (buf s prev) (buf s cur) = buf s cur"
    by (rule life_step_none [OF assms(2)]) simp
  then show ?case
    by (simp add: computed_def compute_phase_def)
next
  case (snoc t ts)
  let ?r = "compute_phase ts T N iter cur prev s"
  from snoc have IH: "computed T N iter cur prev s ts ?r" and t: "t < T" "t \<notin> set ts"
    by simp_all
  have wf: "wf_grid N (buf (fst ?r) cur)"
    using IH by (simp add: computed_def)
  have neq: "(cur = 0) \<noteq> (prev = 0)"
    using assms(3,4) by auto
  have step: "life_step N (covers T N t) (buf s prev)
          (life_step N (\<lambda>i. \<exists>t\<in>set ts. covers T N t i) (buf s prev) (buf s cur)) =
        life_step N (\<lambda>i. \<exists>t\<in>set (ts @ [t]). covers T N t i) (buf s prev) (buf s cur)"
    unfolding life_step_life_step by (rule life_step_cong) auto
  show ?case
    using IH t neq step
    unfolding compute_phase_snoc computed_def Let_def compute_part_eq [OF fits wf t(1)]
    by (auto simp: fun_eq_iff)
qed

lemma reduce_phase_fields:
  "buf (reduce_phase ts locals s) b = buf s b"
  "stdout (reduce_phase ts locals s) = stdout s"
  "sim.more (reduce_phase ts locals s) = sim.more s"
  "live_count (reduce_phase ts locals s) =
     live_count s + (\<Sum>t\<leftarrow>ts. local_live_count (locals t))"
  "birth_count (reduce_phase ts locals s) =
     birth_count s + (\<Sum>t\<leftarrow>ts. local_birth_count (locals t))"
  "death_count (reduce_phase ts locals s) =
     death_count s + (\<Sum>t\<leftarrow>ts. local_death_count (locals t))"
  by (induction ts arbitrary: s; simp add: reduce_phase_def)+

lemma report_phase_fields:
  "buf (report_phase ts s) b = buf s b"
  "sim.more (report_phase ts s) = sim.more s"
  "live_count (report_phase ts s) = live_count s"
  "birth_count (report_phase ts s) = birth_count s"
  "death_count (report_phase ts s) = death_count s"
  by (induction ts arbitrary: s; simp add: report_phase_def)+

lemma stdout_report_phase:
  assumes "distinct ts"
  shows "stdout (report_phase ts s) =
     stdout s @ (if 0 \<in> set ts
                 then [Counters (live_count s) (death_count s) (birth_count s)] else [])"
  using assms
proof (induction ts arbitrary: s)
  case Nil
  then show ?case by (simp add: report_phase_def)
next
  case (Cons t ts)
  have "report_phase (t # ts) s = report_phase ts (report t s)"
    by (simp add: report_phase_def)
  with Cons show ?case by (cases "t = 0") auto
qed

lemma life_step_covered:
  assumes "set ts = {..<T}"
  shows "life_step N (\<lambda>i. \<exists>t\<in>set ts. covers T N t i) prev cur = life_step N (covered T N) prev cur"
  by (rule life_step_cong) (use assms in \<open>auto simp: covered_def\<close>)

lemma generation_in_fields:
  fixes iter :: nat
  assumes fits: "fits_int T N" and "wf_grid N (buf s cur)" and "cur < 2" and "prev = 1 - cur"
    and "distinct ts" and "set ts = {..<T}" and "0 < T"
  defines "s' \<equiv> generation_in ts T N iter cur prev s"
  shows "buf s' cur = life_step N (covered T N) (buf s prev) (buf s cur)"
    and "buf s' prev = buf s prev"
    and "live_count s' = total_live T N (buf s prev)"
    and "birth_count s' = total_birth T N (buf s prev)"
    and "death_count s' = total_death T N (buf s prev)"
    and "stdout s' = stdout s @ [Iteration iter,
           Counters (total_live T N (buf s prev)) (total_death T N (buf s prev))
             (total_birth T N (buf s prev))]"
    and "sim.more s' = sim.more s"
proof -
  define r where "r = compute_phase ts T N iter cur prev s"
  define s1 where "s1 = reduce_phase ts (snd r) (fst r)"
  have "\<forall>t\<in>set ts. t < T" using assms(6) by simp
  from compute_phase_computed [OF fits assms(2-5) this]
  have c: "computed T N iter cur prev s ts r" by (simp add: r_def)
  have zero: "0 \<in> set ts" unfolding assms(6) using assms(7) by simp
  then have ne: "ts \<noteq> []" by auto
  from c ne zero have c1: "buf (fst r) cur =
       life_step N (\<lambda>i. \<exists>t\<in>set ts. covers T N t i) (buf s prev) (buf s cur)"
    and c2: "buf (fst r) prev = buf s prev"
    and c3: "stdout (fst r) = stdout s @ [Iteration iter]"
    and c4: "sim.more (fst r) = sim.more s"
    and c5: "live_count (fst r) = 0" "birth_count (fst r) = 0" "death_count (fst r) = 0"
    and c6: "\<And>t. t \<in> set ts \<Longrightarrow> snd r t = worker_tally T N t (buf s prev)"
    unfolding computed_def by simp_all
  have s': "s' = report_phase ts s1"
    by (simp add: s'_def generation_in_def Let_def r_def s1_def)
  have sums: "(\<Sum>t\<leftarrow>ts. f (snd r t)) = (\<Sum>t<T. f (worker_tally T N t (buf s prev)))"
    for f :: "tally \<Rightarrow> int"
  proof -
    have "(\<Sum>t\<leftarrow>ts. f (snd r t)) = (\<Sum>t\<in>set ts. f (snd r t))"
      using assms(5) by (simp add: sum_list_distinct_conv_sum_set)
    also have "\<dots> = (\<Sum>t\<in>set ts. f (worker_tally T N t (buf s prev)))"
      by (rule sum.cong) (simp_all add: c6)
    finally show ?thesis using assms(6) by simp
  qed
  have live1: "live_count s1 = total_live T N (buf s prev)"
    unfolding s1_def reduce_phase_fields c5 total_live_def sums [of local_live_count] by simp
  have birth1: "birth_count s1 = total_birth T N (buf s prev)"
    unfolding s1_def reduce_phase_fields c5 total_birth_def sums [of local_birth_count] by simp
  have death1: "death_count s1 = total_death T N (buf s prev)"
    unfolding s1_def reduce_phase_fields c5 total_death_def sums [of local_death_count] by simp
  show "buf s' cur = life_step N (covered T N) (buf s prev) (buf s cur)"
    unfolding s' report_phase_fields s1_def reduce_phase_fields c1
    by (rule life_step_covered [OF assms(6)])
  show "buf s' prev = buf s prev"
    unfolding s' report_phase_fields s1_def reduce_phase_fields c2 ..
  show "live_count s' = total_live T N (buf s prev)"
    unfolding s' report_phase_fields live1 ..
  show "birth_count s' = total_birth T N (buf s prev)"
    unfolding s' report_phase_fields birth1 ..
  show "death_count s' = total_death T N (buf s prev)"
    unfolding s' report_phase_fields death1 ..
  have "stdout s1 = stdout s @ [Iteration iter]"
    unfolding s1_def reduce_phase_fields c3 ..
  then show "stdout s' = stdout s @ [Iteration iter,
           Counters (total_live T N (buf s prev)) (total_death T N (buf s prev))
             (total_birth T N (buf s prev))]"
    unfolding s' stdout_report_phase [OF assms(5)] live1 birth1 death1
    using zero by simp
  show "sim.more s' = sim.more s"
    unfolding s' report_phase_fields s1_def reduce_phase_fields c4 ..
qed

lemma generation_in_no_workers: "generation_in [] T N iter cur prev s = s"
  by (simp add: generation_in_def compute_phase_def reduce_phase_def report_phase_def)

lemma sim_eqI:
  assumes "cur < 2" and "prev = 1 - cur"
    and "buf s cur = buf s' cur" and "buf s prev = buf s' prev"
    and "live_count s = live_count s'" and "birth_count s = birth_count s'"
    and "death_count s = death_count s'" and "stdout s = stdout s'"
    and "sim.more s = sim.more s'"
  shows "s = s'"
proof -
  from assms(1) consider "cur = 0" | "cur = 1" by linarith
  then have "grid0 s = grid0 s' \<and> grid1 s = grid1 s'"
  proof cases
    case 1
    with assms(2-4) show ?thesis by (simp add: buf_def)
  next
    case 2
    with assms(2-4) show ?thesis by (simp add: buf_def)
  qed
  with assms(5-9) show ?thesis by (intro sim.equality) simp_all
qed

text \<open>The order of the workers within a phase does not matter.\<close>

lemma generation_in_order:
  assumes fits: "fits_int T N" and "wf_grid N (buf s cur)" and "cur < 2" and "prev = 1 - cur"
    and "distinct ts" and "set ts = {..<T}"
  shows "generation_in ts T N iter cur prev s = generation T N iter cur prev s"
proof (cases "T = 0")
  case True
  with assms(6) show ?thesis by (simp add: generation_def)
next
  case False
  then have T: "0 < T" by simp
  have std: "distinct [0..<T]" "set [0..<T] = {..<T}" by auto
  note a = generation_in_fields [OF fits assms(2-6) T, of iter]
  note b = generation_in_fields [OF fits assms(2-4) std T, of iter]
  show ?thesis
    unfolding generation_def
  proof (rule sim_eqI [OF assms(3,4)])
    show "buf (generation_in ts T N iter cur prev s) cur =
          buf (generation_in [0..<T] T N iter cur prev s) cur"
      by (simp only: a b)
    show "buf (generation_in ts T N iter cur prev s) prev =
          buf (generation_in [0..<T] T N iter cur prev s) prev"
      by (simp only: a b)
    show "live_count (generation_in ts T N iter cur prev s) =
          live_count (generation_in [0..<T] T N iter cur prev s)"
      by (simp only: a b)
    show "birth_count (generation_in ts T N iter cur prev s) =
          birth_count (generation_in [0..<T] T N iter cur prev s)"
      by (simp only: a b)
    show "death_count (generation_in ts T N iter cur prev s) =
          death_count (generation_in [0..<T] T N iter cur prev s)"
      by (simp only: a b)
    show "stdout (generation_in ts T N iter cur prev s) =
          stdout (generation_in [0..<T] T N iter cur prev s)"
      by (simp only: a b)
    show "sim.more (generation_in ts T N iter cur prev s) =
          sim.more (generation_in [0..<T] T N iter cur prev s)"
      by (simp only: a b)
  qed
qed

lemma tally_sum_fields:
  "local_live_count (sum_tally f xs) = (\<Sum>x\<leftarrow>xs. local_live_count (f x))"
  "local_birth_count (sum_tally f xs) = (\<Sum>x\<leftarrow>xs. local_birth_count (f x))"
  "local_death_count (sum_tally f xs) = (\<Sum>x\<leftarrow>xs. local_death_count (f x))"
  by (induction xs rule: rev_induct; simp add: sum_tally_snoc add_tally_def zero_tally_def)+

lemma count_row:
  "(\<Sum>j\<leftarrow>[1..<Suc N]. if P j then 1 else 0) = int (card {j. 1 \<le> j \<and> j \<le> N \<and> P j})"
proof -
  have "int (card ({1..N} \<inter> {j. P j})) = (\<Sum>j\<in>{1..N} \<inter> {j. P j}. 1)"
    by simp
  also have "\<dots> = (\<Sum>j\<in>{1..N}. if j \<in> {j. P j} then 1 else 0)"
    by (rule sum.inter_restrict) simp
  also have "\<dots> = (\<Sum>j\<leftarrow>[1..<Suc N]. if P j then 1 else 0)"
    by (simp add: interv_sum_list_conv_sum_set_nat atLeastLessThanSuc_atLeastAtMost del: upt_Suc)
  finally have "(\<Sum>j\<leftarrow>[1..<Suc N]. if P j then 1 else 0) = int (card ({1..N} \<inter> {j. P j}))"
    by simp
  moreover have "{1..N} \<inter> {j. P j} = {j. 1 \<le> j \<and> j \<le> N \<and> P j}"
    by auto
  ultimately show ?thesis by simp
qed

lemma worker_cells_Sigma:
  "worker_cells T N t P =
     (SIGMA i:{first_row T N t..last_row T N t}. {j. 1 \<le> j \<and> j \<le> N \<and> P i j})"
  by (auto simp: worker_cells_def covers_def)

lemma finite_worker_cells [simp]: "finite (worker_cells T N t P)"
  unfolding worker_cells_Sigma by (intro finite_SigmaI) simp_all

lemma count_worker:
  "(\<Sum>i\<leftarrow>[first_row T N t..<Suc (last_row T N t)].
      \<Sum>j\<leftarrow>[1..<Suc N]. if P i j then 1 else 0) = int (card (worker_cells T N t P))"
proof -
  have "(\<Sum>i\<leftarrow>[first_row T N t..<Suc (last_row T N t)].
      \<Sum>j\<leftarrow>[1..<Suc N]. if P i j then 1 else (0::int)) =
      (\<Sum>i\<in>{first_row T N t..last_row T N t}. int (card {j. 1 \<le> j \<and> j \<le> N \<and> P i j}))"
    unfolding count_row
    by (simp add: interv_sum_list_conv_sum_set_nat atLeastLessThanSuc_atLeastAtMost del: upt_Suc)
  also have "\<dots> = int (card (worker_cells T N t P))"
    unfolding worker_cells_Sigma by (simp add: card_SigmaI)
  finally show ?thesis .
qed

lemma worker_cells_disjoint:
  assumes "t1 \<noteq> t2"
  shows "worker_cells T N t1 P \<inter> worker_cells T N t2 P = {}"
  using covers_unique [of T N t1 _ t2] assms by (auto simp: worker_cells_def)

lemma count_workers:
  "(\<Sum>t<T. int (card (worker_cells T N t P))) =
     int (card {(i, j). covered T N i \<and> 1 \<le> j \<and> j \<le> N \<and> P i j})"
proof -
  have "{(i, j). covered T N i \<and> 1 \<le> j \<and> j \<le> N \<and> P i j} = (\<Union>t\<in>{..<T}. worker_cells T N t P)"
    by (auto simp: worker_cells_def covered_def)
  moreover have "card (\<Union>t\<in>{..<T}. worker_cells T N t P) =
      (\<Sum>t\<in>{..<T}. card (worker_cells T N t P))"
    by (rule card_UN_disjoint) (auto simp: worker_cells_disjoint)
  ultimately show ?thesis by simp
qed

lemma total_birth_card:
  "total_birth T N prev = int (card {(i, j). covered T N i \<and> 1 \<le> j \<and> j \<le> N \<and> is_birth prev i j})"
  unfolding total_birth_def worker_tally_def row_tally_def tally_sum_fields cell_tally_def
    tally.simps count_worker count_workers ..

lemma total_death_card:
  "total_death T N prev = int (card {(i, j). covered T N i \<and> 1 \<le> j \<and> j \<le> N \<and> is_death prev i j})"
  unfolding total_death_def worker_tally_def row_tally_def tally_sum_fields cell_tally_def
    tally.simps count_worker count_workers ..

lemma is_birth_iff: "is_birth prev i j \<longleftrightarrow> cell prev i j = 0 \<and> next_cell prev i j \<noteq> 0"
  by (auto simp: is_birth_def next_cell_def)

lemma is_death_iff: "is_death prev i j \<longleftrightarrow> cell prev i j \<noteq> 0 \<and> next_cell prev i j = 0"
  by (auto simp: is_death_def next_cell_def)

lemma valid_in_order [simp]: "valid_schedule T (in_order T)"
  by (auto simp: valid_schedule_def in_order_def)

lemma sim_wf_buf:
  assumes "cur < 2" and "prev = 1 - cur"
  shows "sim_wf N s \<longleftrightarrow> wf_grid N (buf s cur) \<and> wf_grid N (buf s prev)"
proof -
  from assms(1) consider "cur = 0" | "cur = 1" by linarith
  then show ?thesis
    using assms(2) by cases (auto simp: sim_wf_def buf_def)
qed

lemma sim_wf_generation:
  assumes fits: "fits_int T N" and "sim_wf N s" and "cur < 2" and "prev = 1 - cur"
  shows "sim_wf N (generation T N iter cur prev s)"
proof (cases "T = 0")
  case True
  with assms(2) show ?thesis by (simp add: generation_def generation_in_no_workers)
next
  case False
  then have T: "0 < T" by simp
  have wf: "wf_grid N (buf s cur)" "wf_grid N (buf s prev)"
    using assms(2-) by (simp_all add: sim_wf_buf [OF assms(3,4)])
  have std: "distinct [0..<T]" "set [0..<T] = {..<T}" by auto
  note f = generation_in_fields [OF fits wf(1) assms(3,4) std T, of iter]
  show ?thesis
    unfolding sim_wf_buf [OF assms(3,4)] generation_def f using wf(2) by simp
qed

lemma run_in_Suc:
  "run_in sched T N (Suc g) s = iteration sched T N (Suc g) (run_in sched T N g s)"
  by (simp add: run_in_def)

lemma flip_parity:
  "Suc 0 - g mod 2 = Suc g mod 2" "Suc 0 - Suc g mod 2 = g mod 2"
  "Suc 0 - (Suc 0 - g mod 2) = g mod 2"
  by presburger+

lemma run_in_inv:
  assumes fits: "fits_int T N" and "sim_wf N s" and "valid_schedule T sched"
  shows "run_in sched T N g s = run T N g s
       \<and> fst (run T N g s) = g mod 2
       \<and> fst (snd (run T N g s)) = 1 - g mod 2
       \<and> sim_wf N (snd (snd (run T N g s)))"
proof (induction g)
  case 0
  show ?case using assms(2) by (simp add: run_in_def run_def)
next
  case (Suc g)
  obtain cur prev s' where r: "run T N g s = (cur, prev, s')"
    by (cases "run T N g s") auto
  with Suc have eq: "run_in sched T N g s = (cur, prev, s')"
    and cur: "cur = g mod 2" and prev: "prev = 1 - g mod 2" and wf: "sim_wf N s'"
    by simp_all
  let ?cur = "1 - cur" and ?prev = "1 - prev"
  have c2: "?cur < 2" and p: "?prev = 1 - ?cur"
    using cur prev by simp_all
  have wfc: "wf_grid N (buf s' ?cur)"
    using wf by (simp add: sim_wf_buf [OF c2 p])
  have ord: "distinct (sched (Suc g))" "set (sched (Suc g)) = {..<T}"
    using assms(3) by (simp_all add: valid_schedule_def)
  have g1: "generation_in (sched (Suc g)) T N (Suc g) ?cur ?prev s' =
            generation T N (Suc g) ?cur ?prev s'"
    by (rule generation_in_order [OF fits wfc c2 p ord])
  have g2: "generation_in (in_order T (Suc g)) T N (Suc g) ?cur ?prev s' =
            generation T N (Suc g) ?cur ?prev s'"
    by (simp add: generation_def in_order_def)
  have step: "run T N (Suc g) s = (?cur, ?prev, generation T N (Suc g) ?cur ?prev s')"
    using r g2 unfolding run_def run_in_Suc by (simp add: iteration_def Let_def)
  have step_in: "run_in sched T N (Suc g) s = (?cur, ?prev, generation T N (Suc g) ?cur ?prev s')"
    using eq g1 unfolding run_in_Suc by (simp add: iteration_def Let_def)
  show ?case
    unfolding step step_in
    using sim_wf_generation [OF fits wf c2 p, of "Suc g"] cur prev
    by (simp add: flip_parity)
qed

lemma state_after_0 [simp]: "state_after T N 0 s = s"
  by (simp add: state_after_def run_def run_in_def)

lemma sim_wf_state_after:
  assumes fits: "fits_int T N" and "sim_wf N s"
  shows "sim_wf N (state_after T N g s)"
  using run_in_inv [OF fits assms(2-) valid_in_order, of g] by (simp add: state_after_def)

lemma cur_prev_after [simp]:
  "cur_after g < 2" "prev_after g = 1 - cur_after g" "prev_after (Suc g) = cur_after g"
  "cur_after (Suc g) = prev_after g"
  unfolding cur_after_def prev_after_def by presburger+

lemma cur_after_flip [simp]: "Suc 0 - (Suc 0 - cur_after g) = cur_after g"
  unfolding cur_after_def by presburger

lemma state_after_Suc:
  assumes fits: "fits_int T N" and "sim_wf N s"
  shows "state_after T N (Suc g) s =
     generation T N (Suc g) (cur_after (Suc g)) (prev_after (Suc g)) (state_after T N g s)"
proof -
  obtain cur prev s' where r: "run T N g s = (cur, prev, s')"
    by (cases "run T N g s") auto
  with run_in_inv [OF fits assms(2-) valid_in_order, of g]
  have cur: "cur = g mod 2" and prev: "prev = 1 - g mod 2" by simp_all
  have "run T N (Suc g) s = iteration (in_order T) T N (Suc g) (run T N g s)"
    by (simp add: run_def run_in_Suc)
  then show ?thesis
    using r cur prev
    by (simp add: state_after_def iteration_def Let_def generation_def in_order_def
        cur_after_def prev_after_def flip_parity)
qed

text \<open>One generation, for at least one worker, in terms of the state before it.\<close>

lemma generation_step:
  fixes g :: nat
  assumes fits: "fits_int T N" and "sim_wf N s" and "0 < T"
  defines "before \<equiv> state_after T N g s" and "after \<equiv> state_after T N (Suc g) s"
  shows "buf after (cur_after (Suc g)) =
           life_step N (covered T N) (buf before (cur_after g)) (buf before (prev_after g))"
    and "buf after (prev_after (Suc g)) = buf before (cur_after g)"
    and "live_count after = total_live T N (buf before (cur_after g))"
    and "birth_count after = total_birth T N (buf before (cur_after g))"
    and "death_count after = total_death T N (buf before (cur_after g))"
    and "stdout after = stdout before @ [Iteration (Suc g),
           Counters (total_live T N (buf before (cur_after g)))
             (total_death T N (buf before (cur_after g)))
             (total_birth T N (buf before (cur_after g)))]"
proof -
  have wf: "sim_wf N before"
    unfolding before_def by (rule sim_wf_state_after [OF fits assms(2)])
  have c2: "cur_after (Suc g) < 2" and p: "prev_after (Suc g) = 1 - cur_after (Suc g)"
    by simp_all
  have wfc: "wf_grid N (buf before (cur_after (Suc g)))"
    using wf by (simp add: sim_wf_buf [OF c2 p])
  have std: "distinct [0..<T]" "set [0..<T] = {..<T}" by auto
  have a: "after = generation_in [0..<T] T N (Suc g) (cur_after (Suc g)) (prev_after (Suc g)) before"
    unfolding after_def before_def state_after_Suc [OF fits assms(2)] generation_def ..
  note f = generation_in_fields [OF fits wfc c2 p std assms(3), of "Suc g", folded a]
  show "buf after (cur_after (Suc g)) =
           life_step N (covered T N) (buf before (cur_after g)) (buf before (prev_after g))"
    using f(1) by simp
  show "buf after (prev_after (Suc g)) = buf before (cur_after g)"
    using f(2) by simp
  show "live_count after = total_live T N (buf before (cur_after g))"
    using f(3) by simp
  show "birth_count after = total_birth T N (buf before (cur_after g))"
    using f(4) by simp
  show "death_count after = total_death T N (buf before (cur_after g))"
    using f(5) by simp
  show "stdout after = stdout before @ [Iteration (Suc g),
           Counters (total_live T N (buf before (cur_after g)))
             (total_death T N (buf before (cur_after g)))
             (total_birth T N (buf before (cur_after g)))]"
    using f(6) by simp
qed

lemma wf_fill [simp]: "wf_grid N (fill N R C f cur)"
  by (simp add: wf_grid_def fill_def del: upt_Suc)

lemma cell_fill:
  assumes "i < N + 2" and "j < N + 2"
  shows "cell (fill N R C f cur) i j = (if R i \<and> C j then f i j else cell cur i j)"
  using assms by (simp add: cell_def fill_def del: upt_Suc)

lemma fill_none:
  assumes "wf_grid N cur" and "\<And>i j. i < N + 2 \<Longrightarrow> j < N + 2 \<Longrightarrow> \<not> (R i \<and> C j)"
  shows "fill N R C f cur = cur"
  by (rule grid_eqI [of N]) (use assms in \<open>auto simp: cell_fill\<close>)

lemma set_cell_fill_col:
  assumes "i < N + 2" and "k < N + 2" and "a \<le> k"
  shows "set_cell (fill N (\<lambda>r. r = i) (\<lambda>j. a \<le> j \<and> j < k) f cur) i k (f i k) =
         fill N (\<lambda>r. r = i) (\<lambda>j. a \<le> j \<and> j < Suc k) f cur"
  by (rule grid_eqI [of N])
    (use assms in \<open>auto simp: wf_set_cell cell_fill cell_set_cell_wf [OF wf_fill assms(1,2)]\<close>)

lemma fill_fill_row:
  assumes "a \<le> b"
  shows "fill N (\<lambda>r. r = b) C f (fill N (\<lambda>r. a \<le> r \<and> r < b) C f cur) =
         fill N (\<lambda>r. a \<le> r \<and> r < Suc b) C f cur"
  by (rule grid_eqI [of N]) (use assms in \<open>auto simp: cell_fill\<close>)

lemma wf_malloc_grid [simp]: "wf_grid N (malloc_grid N junk)"
  by (simp add: wf_grid_def malloc_grid_def del: upt_Suc)

lemma zero_cols:
  assumes "wf_grid N g0" and "wf_grid N g1" and "i < N + 2" and "k \<le> N + 2"
  shows "fold (\<lambda>j (g0, g1). (set_cell g0 i j 0, set_cell g1 i j 0)) [0..<k] (g0, g1) =
           (fill N (\<lambda>r. r = i) (\<lambda>j. 0 \<le> j \<and> j < k) (\<lambda>i j. 0) g0,
            fill N (\<lambda>r. r = i) (\<lambda>j. 0 \<le> j \<and> j < k) (\<lambda>i j. 0) g1)"
  using assms(4)
proof (induction k)
  case 0
  then show ?case using assms(1,2) by (simp add: fill_none)
next
  case (Suc k)
  then have k: "k < N + 2" by simp
  show ?case
    using Suc set_cell_fill_col [OF assms(3) k, of 0 "\<lambda>i j. 0"] by simp
qed

lemma zero_row_eq:
  assumes "wf_grid N g0" and "wf_grid N g1" and "i < N + 2"
  shows "zero_row N i (g0, g1) =
           (fill N (\<lambda>r. r = i) (\<lambda>j. 0 \<le> j \<and> j < N + 2) (\<lambda>i j. 0) g0,
            fill N (\<lambda>r. r = i) (\<lambda>j. 0 \<le> j \<and> j < N + 2) (\<lambda>i j. 0) g1)"
  unfolding zero_row_def by (rule zero_cols [OF assms order_refl])

lemma zero_rows:
  assumes "wf_grid N g0" and "wf_grid N g1" and "a \<le> N + 2"
  shows "fold (zero_row N) [0..<a] (g0, g1) =
           (fill N (\<lambda>r. 0 \<le> r \<and> r < a) (\<lambda>j. 0 \<le> j \<and> j < N + 2) (\<lambda>i j. 0) g0,
            fill N (\<lambda>r. 0 \<le> r \<and> r < a) (\<lambda>j. 0 \<le> j \<and> j < N + 2) (\<lambda>i j. 0) g1)"
  using assms(3)
proof (induction a)
  case 0
  have "fill N (\<lambda>r. 0 \<le> r \<and> r < 0) (\<lambda>j. 0 \<le> j \<and> j < N + 2) (\<lambda>i j. 0) g = g"
    if "wf_grid N g" for g
    by (rule fill_none [OF that]) simp
  with assms(1,2) show ?case by simp
next
  case (Suc a)
  then have a: "a < N + 2" by simp
  let ?C = "\<lambda>j. 0 \<le> j \<and> j < N + 2"
  have IH: "fold (zero_row N) [0..<a] (g0, g1) =
           (fill N (\<lambda>r. 0 \<le> r \<and> r < a) ?C (\<lambda>i j. 0) g0,
            fill N (\<lambda>r. 0 \<le> r \<and> r < a) ?C (\<lambda>i j. 0) g1)"
    using Suc by simp
  have "fold (zero_row N) [0..<Suc a] (g0, g1) = zero_row N a (fold (zero_row N) [0..<a] (g0, g1))"
    by simp
  also have "\<dots> =
      (fill N (\<lambda>r. r = a) ?C (\<lambda>i j. 0) (fill N (\<lambda>r. 0 \<le> r \<and> r < a) ?C (\<lambda>i j. 0) g0),
       fill N (\<lambda>r. r = a) ?C (\<lambda>i j. 0) (fill N (\<lambda>r. 0 \<le> r \<and> r < a) ?C (\<lambda>i j. 0) g1))"
    unfolding IH by (rule zero_row_eq [OF wf_fill wf_fill a])
  finally show ?case
    unfolding fill_fill_row [OF le0] .
qed

lemma wf_zero_grid [simp]: "wf_grid N (zero_grid N)"
  by (simp add: wf_grid_def zero_grid_def del: add_2_eq_Suc' add_2_eq_Suc)

lemma cell_zero_grid:
  assumes "i < N + 2" and "j < N + 2"
  shows "cell (zero_grid N) i j = 0"
  using assms by (simp add: cell_def zero_grid_def del: add_2_eq_Suc' add_2_eq_Suc)

lemma zero_grids_eq:
  assumes "wf_grid N g0" and "wf_grid N g1"
  shows "zero_grids N (g0, g1) = (zero_grid N, zero_grid N)"
proof -
  have "fill N (\<lambda>r. 0 \<le> r \<and> r < N + 2) (\<lambda>j. 0 \<le> j \<and> j < N + 2) (\<lambda>i j. 0) g = zero_grid N" for g
    by (rule grid_eqI [of N]) (simp_all add: cell_fill cell_zero_grid)
  then show ?thesis
    unfolding zero_grids_def zero_rows [OF assms order_refl] by simp
qed

text \<open>The seeding loop.\<close>

lemma seed_cols:
  assumes "wf_grid N g" and "i < N + 2" and "k \<le> N + 2"
  shows "\<exists>live'. fold (seed_cell pct d i) [1..<k] (g, live, c) =
           (fill N (\<lambda>r. r = i) (\<lambda>j. 1 \<le> j \<and> j < k)
              (\<lambda>i j. if d (c + (j - 1)) < pct then 1 else 0) g, live', c + (k - 1))"
  using assms(3)
proof (induction k)
  case 0
  then show ?case using assms(1) by (simp add: fill_none)
next
  case (Suc k)
  show ?case
  proof (cases "1 \<le> k")
    case False
    then have "fill N (\<lambda>r. r = i) (\<lambda>j. 1 \<le> j \<and> j < Suc k)
              (\<lambda>i j. if d (c + (j - 1)) < pct then 1 else 0) g = g"
      by (intro fill_none assms(1)) auto
    with False show ?thesis by simp
  next
    case True
    have k: "k < N + 2" using Suc.prems by simp
    let ?f = "\<lambda>i j. if d (c + (j - 1)) < pct then 1 else (0::int)"
    from Suc obtain live' where IH: "fold (seed_cell pct d i) [1..<k] (g, live, c) =
           (fill N (\<lambda>r. r = i) (\<lambda>j. 1 \<le> j \<and> j < k) ?f g, live', c + (k - 1))"
      by auto
    have app: "[1..<Suc k] = [1..<k] @ [k]" using True by simp
    show ?thesis
      unfolding app fold_append comp_def IH fold_simps
      using set_cell_fill_col [OF assms(2) k True, of ?f g] True
      by (auto simp: seed_cell_def)
  qed
qed

lemma fill_cong:
  assumes "\<And>i j. i < N + 2 \<Longrightarrow> j < N + 2 \<Longrightarrow> R i \<Longrightarrow> C j \<Longrightarrow> f i j = f' i j"
  shows "fill N R C f g = fill N R C f' g"
  by (rule grid_eqI [of N]) (use assms in \<open>auto simp: cell_fill\<close>)

lemma seed_row_eq:
  assumes "wf_grid N g" and "i < N + 2"
  shows "\<exists>live'. seed_row N pct d i (g, live, c) =
           (fill N (\<lambda>r. r = i) (\<lambda>j. 1 \<le> j \<and> j < Suc N)
              (\<lambda>i j. if d (c + (j - 1)) < pct then 1 else 0) g, live', c + N)"
  using seed_cols [OF assms, of "Suc N" pct d live c] by (simp add: seed_row_def)

lemma seed_rows:
  assumes "wf_grid N g" and "a \<le> N + 2"
  shows "\<exists>live'. fold (seed_row N pct d) [1..<a] (g, live, 0) =
           (fill N (\<lambda>r. 1 \<le> r \<and> r < a) (\<lambda>j. 1 \<le> j \<and> j < Suc N) (seed_value N pct d) g,
            live', (a - 1) * N)"
  using assms(2)
proof (induction a)
  case 0
  then show ?case using assms(1) by (simp add: fill_none)
next
  case (Suc a)
  let ?C = "\<lambda>j. 1 \<le> j \<and> j < Suc N"
  show ?case
  proof (cases "1 \<le> a")
    case False
    then have "fill N (\<lambda>r. 1 \<le> r \<and> r < Suc a) ?C (seed_value N pct d) g = g"
      by (intro fill_none assms(1)) auto
    with False show ?thesis by simp
  next
    case True
    have a: "a < N + 2" using Suc.prems by simp
    from Suc obtain l1 where IH: "fold (seed_row N pct d) [1..<a] (g, live, 0) =
           (fill N (\<lambda>r. 1 \<le> r \<and> r < a) ?C (seed_value N pct d) g, l1, (a - 1) * N)"
      by auto
    let ?g = "fill N (\<lambda>r. 1 \<le> r \<and> r < a) ?C (seed_value N pct d) g"
    from seed_row_eq [OF wf_fill a, where pct = pct and d = d and live = l1 and c = "(a - 1) * N"]
    obtain l2 where row: "seed_row N pct d a (?g, l1, (a - 1) * N) =
        (fill N (\<lambda>r. r = a) ?C (\<lambda>i j. if d ((a - 1) * N + (j - 1)) < pct then 1 else 0) ?g,
         l2, (a - 1) * N + N)"
      by blast
    have "fill N (\<lambda>r. r = a) ?C (\<lambda>i j. if d ((a - 1) * N + (j - 1)) < pct then 1 else 0) ?g =
          fill N (\<lambda>r. r = a) ?C (seed_value N pct d) ?g"
      by (rule fill_cong) (simp add: seed_value_def)
    also have "\<dots> = fill N (\<lambda>r. 1 \<le> r \<and> r < Suc a) ?C (seed_value N pct d) g"
      by (rule fill_fill_row [OF True])
    finally have g': "fill N (\<lambda>r. r = a) ?C
        (\<lambda>i j. if d ((a - 1) * N + (j - 1)) < pct then 1 else 0) ?g =
        fill N (\<lambda>r. 1 \<le> r \<and> r < Suc a) ?C (seed_value N pct d) g" .
    have calls: "(a - 1) * N + N = (Suc a - 1) * N"
      using True by (cases a) simp_all
    have app: "[1..<Suc a] = [1..<a] @ [a]" using True by simp
    show ?thesis
      unfolding app fold_append comp_def IH fold_simps row g' calls by blast
  qed
qed

lemma seed_grid_eq:
  "fst (seed_grid N pct d (zero_grid N)) = seeded_grid N pct d"
proof -
  have "Suc N \<le> N + 2" by simp
  from seed_rows [OF wf_zero_grid this, where pct = pct and d = d and live = 0]
  obtain live' where "fold (seed_row N pct d) [1..<Suc N] (zero_grid N, 0, 0) =
      (seeded_grid N pct d, live', (Suc N - 1) * N)"
    unfolding seeded_grid_def by blast
  then show ?thesis
    unfolding seed_grid_def by simp
qed

lemma initial_grids:
  "grid0 (initial e a) = seeded_grid (arg_gridsize a) (arg_init_pct a) (drand48_after e 0)"
  "grid1 (initial e a) = zero_grid (arg_gridsize a)"
  by (simp_all add: initial_def Let_def print_def zero_grids_eq seed_grid_eq)

lemma sim_wf_initial [simp]: "sim_wf (arg_gridsize a) (initial e a)"
  by (simp add: sim_wf_def initial_grids seeded_grid_def)

subsection \<open>The transition rule and the counters of a generation\<close>

lemma covers_interior:
  assumes "t < T" and "covers T N t i"
  shows "1 \<le> i" and "i \<le> N"
  using assms first_row_ge1 [of T N t] last_row_le [OF assms(1), of N]
  by (simp_all add: covers_def)

lemma covered_iff: "covered T N i \<longleftrightarrow> (\<exists>t<T. covers T N t i)"
  by (auto simp: covered_def)

lemma covered_interior:
  assumes "covered T N i"
  shows "1 \<le> i" and "i \<le> N"
  using assms covers_interior by (auto simp: covered_iff)

lemma cell_after_generation:
  assumes fits: "fits_int T N" and "sim_wf N s" and "0 < T" and "i < N + 2" and "j < N + 2"
  shows "cell (buf (state_after T N (Suc g) s) (cur_after (Suc g))) i j =
     (if covered T N i \<and> 1 \<le> j \<and> j \<le> N
      then next_cell (buf (state_after T N g s) (cur_after g)) i j
      else cell (buf (state_after T N g s) (prev_after g)) i j)"
  unfolding generation_step(1) [OF fits assms(2,3)] by (rule cell_life_step [OF assms(4,5)])

lemma seeded_live3:
  assumes "\<forall>k. d k < 1"
  shows "seeded_grid 3 1 d = live3"
  using assms
  by (simp add: seeded_grid_def fill_def seed_value_def zero_grid_def cell_def live3_def
      upt_rec [of _ "numeral _"] upt_rec [of _ "Suc _"])

lemma step_live3: "life_step 3 (covered 1 3) live3 (zero_grid 3) = corners3"
  by code_simp

lemma totals_live3:
  "total_live 1 3 live3 = 4" "total_death 1 3 live3 = 5" "total_birth 1 3 live3 = 0"
  by code_simp+

lemma buf_0_1 [simp]: "buf s 0 = grid0 s" "buf s (Suc 0) = grid1 s" "buf s 1 = grid1 s"
  by (simp_all add: buf_def)

lemma after_0 [simp]: "cur_after 0 = 0" "prev_after 0 = Suc 0" "cur_after (Suc 0) = Suc 0"
  "prev_after (Suc 0) = 0"
  by (simp_all add: cur_after_def prev_after_def)

lemma run_in_one:
  "run_in sched T N (Suc 0) s = (Suc 0, 0, generation_in (sched (Suc 0)) T N (Suc 0) (Suc 0) 0 s)"
  by (simp add: run_in_def iteration_def)

lemma state_after_one: "state_after T N (Suc 0) s = generation T N (Suc 0) (Suc 0) 0 s"
  by (simp add: state_after_def run_def run_in_one generation_def in_order_def)

text \<open>
  C7. With \<open>gridsize = 3\<close>, \<open>init_pct = 1.0\<close> (every value of \<open>drand48\<close> is below 1, so
  the whole interior starts live), one iteration and one worker, the program completes; in the
  current array \<open>grid[1]\<close> the four corners of the interior are live and its other five cells
  are dead, and the live count, also as printed, is 4.
\<close>

theorem all_live_3x3:
  assumes "\<forall>k. drand48_after e 0 k < 1" and "create_rc e 0 = 0" and "schedule e 1 = [0]"
    and "barrier_init_rc e = 0" and "mutex_init_rc e = 0"
  shows "\<exists>s. main e 5 \<lparr>arg_num_threads = 1, arg_gridsize = 3, arg_init_pct = 1,
                       arg_num_iters = 1\<rparr> = Completed s
           \<and> grid1 s = [[0, 0, 0, 0, 0], [0, 1, 0, 1, 0], [0, 0, 0, 0, 0], [0, 1, 0, 1, 0],
                         [0, 0, 0, 0, 0]]
           \<and> live_count s = 4
           \<and> last (stdout s) = Counters 4 5 0"
proof -
  let ?a = "\<lparr>arg_num_threads = 1, arg_gridsize = 3, arg_init_pct = 1, arg_num_iters = 1\<rparr>"
  let ?s = "state_after 1 3 (Suc 0) (initial e ?a)"
  have wf: "sim_wf 3 (initial e ?a)"
    using sim_wf_initial [of ?a e] by simp
  have g0: "grid0 (initial e ?a) = live3" and g1: "grid1 (initial e ?a) = zero_grid 3"
    using assms(1) by (simp_all add: initial_grids seeded_live3)
  have fits: "fits_int 1 3"
    by (simp add: fits_int_def)
  have "sweeps_defined ?a [0]"
    using in_arrays_fits [OF fits zero_less_one] by (simp add: sweeps_defined_def)
  moreover have "startup e ?a = Started [0]"
    using assms(2) by (simp add: startup_def)
  ultimately have main: "main e 5 ?a = Completed ?s"
    using assms(3,4,5) by (simp add: main_def run_in_one state_after_one generation_def)
  note f = generation_step [OF fits wf zero_less_one, of 0]
  have "grid1 ?s = corners3"
    using f(1) by (simp add: g0 g1 step_live3 del: One_nat_def)
  moreover have "live_count ?s = 4"
    using f(3) by (simp add: g0 totals_live3 del: One_nat_def)
  moreover have "last (stdout ?s) = Counters 4 5 0"
    using f(6) by (simp add: g0 totals_live3 del: One_nat_def)
  ultimately show ?thesis
    using main by (simp add: corners3_def)
qed

theorem all_live_3x3_witness:
  "\<exists>s. main quiet_env 5 \<lparr>arg_num_threads = 1, arg_gridsize = 3, arg_init_pct = 1,
                           arg_num_iters = 1\<rparr> = Completed s
           \<and> grid1 s = [[0, 0, 0, 0, 0], [0, 1, 0, 1, 0], [0, 0, 0, 0, 0], [0, 1, 0, 1, 0],
                         [0, 0, 0, 0, 0]]
           \<and> live_count s = 4
           \<and> last (stdout s) = Counters 4 5 0"
  by (rule all_live_3x3) (simp_all add: quiet_env_def)

text \<open>
  After every iteration \<open>Suc g\<close> of the phased run with at least one worker, \<open>birth_count\<close>
  is the number of cells visited by some worker that are 0 in the previous array and not 0 in
  the current one, and \<open>death_count\<close> is the number of visited cells that are not 0 in the
  previous array and 0 in the current one.
\<close>

lemma counts_of_generation:
  assumes fits: "fits_int num_threads gridsize" and "sim_wf gridsize s" and "1 \<le> num_threads"
  shows "birth_count (state_after num_threads gridsize (Suc g) s) =
           int (card {(i, j). covered num_threads gridsize i \<and> 1 \<le> j \<and> j \<le> gridsize \<and>
              cell (buf (state_after num_threads gridsize g s) (cur_after g)) i j = 0 \<and>
              cell (buf (state_after num_threads gridsize (Suc g) s) (cur_after (Suc g))) i j \<noteq> 0})"
    and "death_count (state_after num_threads gridsize (Suc g) s) =
           int (card {(i, j). covered num_threads gridsize i \<and> 1 \<le> j \<and> j \<le> gridsize \<and>
              cell (buf (state_after num_threads gridsize g s) (cur_after g)) i j \<noteq> 0 \<and>
              cell (buf (state_after num_threads gridsize (Suc g) s) (cur_after (Suc g))) i j = 0})"
proof -
  have T: "0 < num_threads" using assms(3) by simp
  let ?prev = "buf (state_after num_threads gridsize g s) (cur_after g)"
  let ?after = "state_after num_threads gridsize (Suc g) s"
  let ?cur = "buf ?after (cur_after (Suc g))"
  note f = generation_step [OF fits assms(2) T, of g]
  have cur: "cell ?cur i j = next_cell ?prev i j"
    if "covered num_threads gridsize i" and "1 \<le> j" and "j \<le> gridsize" for i j
  proof -
    have "i < gridsize + 2" "j < gridsize + 2"
      using covered_interior [OF that(1)] that(3) by simp_all
    from cell_after_generation [OF fits assms(2) T this, of g] that show ?thesis by simp
  qed
  have "{(i, j). covered num_threads gridsize i \<and> 1 \<le> j \<and> j \<le> gridsize \<and> is_birth ?prev i j} =
        {(i, j). covered num_threads gridsize i \<and> 1 \<le> j \<and> j \<le> gridsize \<and>
                 cell ?prev i j = 0 \<and> cell ?cur i j \<noteq> 0}"
    using cur by (auto simp: is_birth_iff)
  then show "birth_count ?after =
      int (card {(i, j). covered num_threads gridsize i \<and> 1 \<le> j \<and> j \<le> gridsize \<and>
                 cell ?prev i j = 0 \<and> cell ?cur i j \<noteq> 0})"
    unfolding f(4) total_birth_card by simp
  have "{(i, j). covered num_threads gridsize i \<and> 1 \<le> j \<and> j \<le> gridsize \<and> is_death ?prev i j} =
        {(i, j). covered num_threads gridsize i \<and> 1 \<le> j \<and> j \<le> gridsize \<and>
                 cell ?prev i j \<noteq> 0 \<and> cell ?cur i j = 0}"
    using cur by (auto simp: is_death_iff)
  then show "death_count ?after =
      int (card {(i, j). covered num_threads gridsize i \<and> 1 \<le> j \<and> j \<le> gridsize \<and>
                 cell ?prev i j \<noteq> 0 \<and> cell ?cur i j = 0})"
    unfolding f(5) total_death_card by simp
qed

subsection \<open>Cells no worker writes\<close>

lemma state_after_Suc_no_workers:
  assumes fits: "fits_int 0 N" and "sim_wf N s"
  shows "state_after 0 N (Suc g) s = state_after 0 N g s"
  unfolding state_after_Suc [OF fits assms(2-)] by (simp add: generation_def generation_in_no_workers)

text \<open>A generation leaves the cells outside the rows of the workers and the columns
  \<open>1..gridsize\<close> as they were, in both arrays.\<close>

lemma generation_frame:
  assumes fits: "fits_int T N" and "sim_wf N s" and "i < N + 2" and "j < N + 2"
    and "\<not> (covered T N i \<and> 1 \<le> j \<and> j \<le> N)"
  shows "cell (buf (state_after T N (Suc g) s) (cur_after (Suc g))) i j =
         cell (buf (state_after T N g s) (prev_after g)) i j"
    and "buf (state_after T N (Suc g) s) (prev_after (Suc g)) =
         buf (state_after T N g s) (cur_after g)"
proof -
  show "cell (buf (state_after T N (Suc g) s) (cur_after (Suc g))) i j =
         cell (buf (state_after T N g s) (prev_after g)) i j"
  proof (cases "T = 0")
    case True
    then show ?thesis
      using state_after_Suc_no_workers [OF fits_int_fewer(2) [OF fits] assms(2)] by simp
  next
    case False
    then have "0 < T" by simp
    from cell_after_generation [OF fits assms(2) this assms(3,4), of g] assms(5) show ?thesis
      by (simp only: if_False)
  qed
  show "buf (state_after T N (Suc g) s) (prev_after (Suc g)) =
         buf (state_after T N g s) (cur_after g)"
  proof (cases "T = 0")
    case True
    then show ?thesis
      using state_after_Suc_no_workers [OF fits_int_fewer(2) [OF fits] assms(2)] by simp
  next
    case False
    then have "0 < T" by simp
    from generation_step(2) [OF fits assms(2) this] show ?thesis .
  qed
qed

text \<open>Cells that no generation writes keep their value in each of the two arrays.\<close>

lemma unwritten_cell:
  assumes fits: "fits_int T N" and "sim_wf N s" and "i < N + 2" and "j < N + 2"
    and "\<not> (covered T N i \<and> 1 \<le> j \<and> j \<le> N)"
  shows "cell (buf (state_after T N g s) (cur_after g)) i j = cell (buf s (cur_after g)) i j
       \<and> cell (buf (state_after T N g s) (prev_after g)) i j = cell (buf s (prev_after g)) i j"
proof (induction g)
  case 0
  show ?case by simp
next
  case (Suc g)
  note fr = generation_frame [OF fits assms(2-), of g]
  from Suc show ?case
    unfolding fr by simp
qed

lemma buf_cur_prev:
  "b < 2 \<Longrightarrow> b = cur_after g \<or> b = prev_after g"
  unfolding cur_after_def prev_after_def by presburger

lemma unwritten_cell_buf:
  assumes fits: "fits_int T N" and "sim_wf N s" and "i < N + 2" and "j < N + 2"
    and "\<not> (covered T N i \<and> 1 \<le> j \<and> j \<le> N)" and "b < 2"
  shows "cell (buf (state_after T N g s) b) i j = cell (buf s b) i j"
  using unwritten_cell [OF fits assms(2-5), of g] buf_cur_prev [OF assms(6), of g] by auto

lemma halo_not_written:
  assumes "halo N i j"
  shows "\<not> (covered T N i \<and> 1 \<le> j \<and> j \<le> N)"
  using assms covered_interior [of T N i] by (auto simp: halo_def)

lemma cell_seeded_grid:
  assumes "i < N + 2" and "j < N + 2"
  shows "cell (seeded_grid N pct d) i j =
     (if 1 \<le> i \<and> i \<le> N \<and> 1 \<le> j \<and> j \<le> N then seed_value N pct d i j else 0)"
  using assms by (auto simp: seeded_grid_def cell_fill cell_zero_grid)

lemma halo_initial:
  assumes "halo (arg_gridsize a) i j"
  shows "cell (grid0 (initial e a)) i j = 0" and "cell (grid1 (initial e a)) i j = 0"
  using assms by (auto simp: initial_grids cell_seeded_grid cell_zero_grid halo_def)

subsection \<open>Rows without a worker\<close>

lemma top_row_uncovered:
  assumes "1 \<le> T" and "\<not> T dvd N"
  shows "\<not> covered T N N"
proof
  assume "covered T N N"
  then obtain t where t: "t < T" and own: "covers T N t N"
    by (auto simp: covered_iff)
  have "last_row T N t \<le> last_row T N (T - 1)"
  proof (cases "t = T - 1")
    case True
    then show ?thesis by simp
  next
    case False
    with t have "t < T - 1" by simp
    from end_lt_start [OF this, of T N] have "last_row T N t < first_row T N (T - 1)" .
    moreover have "first_row T N (T - 1) \<le> last_row T N (T - 1) + 1"
      by (simp add: last_row_def)
    ultimately show ?thesis by simp
  qed
  with own have le: "N \<le> last_row T N (T - 1)"
    by (simp add: covers_def)
  have T: "0 < T" using assms(1) by simp
  have "N = T * (N div T) + N mod T" by simp
  moreover have "0 < N mod T" using assms(2) by (simp add: dvd_eq_mod_eq_0)
  ultimately have lt: "T * (N div T) < N" by linarith
  have "(T - 1) * N + N = T * N"
    using T by (cases T) simp_all
  have "(T - 1) * N div T + N div T < N"
  proof (rule ccontr)
    assume "\<not> (T - 1) * N div T + N div T < N"
    then have ge: "N \<le> (T - 1) * N div T + N div T" by simp
    have "T * ((T - 1) * N div T) \<le> (T - 1) * N" by simp
    moreover have "T * N \<le> T * ((T - 1) * N div T) + T * (N div T)"
      using ge by (metis add_mult_distrib2 mult_le_mono2)
    ultimately have "T * N \<le> (T - 1) * N + T * (N div T)" by linarith
    with \<open>(T - 1) * N + N = T * N\<close> have "N \<le> T * (N div T)" by linarith
    with lt show False by simp
  qed
  with le show False by (simp add: last_row_eq)
qed

lemma covered_rows_Union: "{r. covered T N r} = (\<Union>t\<in>{..<T}. {first_row T N t..last_row T N t})"
  by (auto simp: covered_iff covers_def)

lemma card_row_range: "card {first_row T N t..last_row T N t} = N div T"
  by (simp add: last_row_def first_row_def)

lemma card_covered: "card {r. covered T N r} = T * (N div T)"
proof -
  have "card (\<Union>t\<in>{..<T}. {first_row T N t..last_row T N t}) =
        (\<Sum>t\<in>{..<T}. card {first_row T N t..last_row T N t})"
  proof (rule card_UN_disjoint)
    show "\<forall>i\<in>{..<T}. \<forall>j\<in>{..<T}. i \<noteq> j \<longrightarrow>
        {first_row T N i..last_row T N i} \<inter> {first_row T N j..last_row T N j} = {}"
      using covers_unique [of T N] by (fastforce simp: covers_def)
  qed simp_all
  then show ?thesis
    unfolding covered_rows_Union card_row_range by simp
qed

lemma card_uncovered:
  assumes "1 \<le> T"
  shows "card {r. 1 \<le> r \<and> r \<le> N \<and> \<not> covered T N r} = N mod T"
proof -
  have sub: "{r. covered T N r} \<subseteq> {1..N}"
    using covered_interior by auto
  have "{r. 1 \<le> r \<and> r \<le> N \<and> \<not> covered T N r} = {1..N} - {r. covered T N r}"
    by auto
  then have "card {r. 1 \<le> r \<and> r \<le> N \<and> \<not> covered T N r} = card {1..N} - card {r. covered T N r}"
    using sub by (simp add: card_Diff_subset finite_subset)
  also have "\<dots> = N - T * (N div T)"
    by (simp add: card_covered)
  also have "\<dots> = N mod T"
    by (simp add: minus_mult_div_eq_mod)
  finally show ?thesis .
qed

lemma step_live3_two: "life_step 3 (covered 2 3) live3 (zero_grid 3) =
    [[0, 0, 0, 0, 0], [0, 1, 0, 1, 0], [0, 0, 0, 0, 0], [0, 0, 0, 0, 0], [0, 0, 0, 0, 0]]"
  by code_simp

subsection \<open>Failures at startup\<close>

lemma find_app:
  "List.find P (xs @ ys) = (case List.find P xs of None \<Rightarrow> List.find P ys | Some x \<Rightarrow> Some x)"
  by (induction xs) simp_all

lemma find_first_failure:
  assumes "k < n" and "P k" and "\<forall>t<k. \<not> P t"
  shows "List.find P [0..<n] = Some k"
proof -
  have "[0..<n] = [0..<k] @ k # [Suc k..<n]"
    using assms(1) by (metis le0 upt_conv_Cons upt_add_eq_append less_imp_le_nat
        add_diff_inverse_nat not_less le_add_diff_inverse)
  moreover have "List.find P [0..<k] = None"
    using assms(3) by (simp add: find_None_iff)
  ultimately show ?thesis
    using assms(2) by (simp add: find_app)
qed

subsection \<open>The number of workers\<close>

lemma covered_dvd:
  assumes "1 \<le> T" and "T dvd N"
  shows "covered T N r \<longleftrightarrow> 1 \<le> r \<and> r \<le> N"
  using covers_dvd_ex [OF assms, of r] covered_interior [of T N r] by (auto simp: covered_iff)

lemma sum_row:
  "(\<Sum>j\<leftarrow>[1..<Suc N]. f j) = (\<Sum>j\<in>{1..N}. f j)" for f :: "nat \<Rightarrow> int"
  by (simp add: interv_sum_list_conv_sum_set_nat atLeastLessThanSuc_atLeastAtMost del: upt_Suc)

lemma sum_worker:
  "(\<Sum>i\<leftarrow>[first_row T N t..<Suc (last_row T N t)]. \<Sum>j\<leftarrow>[1..<Suc N]. f i j) =
   (\<Sum>i\<in>{first_row T N t..last_row T N t}. \<Sum>j\<in>{1..N}. f i j)" for f :: "nat \<Rightarrow> nat \<Rightarrow> int"
  unfolding sum_row
  by (simp add: interv_sum_list_conv_sum_set_nat atLeastLessThanSuc_atLeastAtMost del: upt_Suc)

lemma sum_workers:
  fixes h :: "nat \<Rightarrow> int"
  shows "(\<Sum>t<T. \<Sum>i\<in>{first_row T N t..last_row T N t}. h i) = (\<Sum>i\<in>{r. covered T N r}. h i)"
proof -
  have "(\<Sum>i\<in>(\<Union>t\<in>{..<T}. {first_row T N t..last_row T N t}). h i) =
        (\<Sum>t\<in>{..<T}. \<Sum>i\<in>{first_row T N t..last_row T N t}. h i)"
  proof (rule sum.UNION_disjoint)
    show "\<forall>i\<in>{..<T}. \<forall>j\<in>{..<T}. i \<noteq> j \<longrightarrow>
        {first_row T N i..last_row T N i} \<inter> {first_row T N j..last_row T N j} = {}"
      using covers_unique [of T N] by (fastforce simp: covers_def)
  qed simp_all
  then show ?thesis
    unfolding covered_rows_Union by simp
qed

lemma total_live_sum:
  "total_live T N prev = (\<Sum>i\<in>{r. covered T N r}. \<Sum>j\<in>{1..N}. next_cell prev i j)"
  unfolding total_live_def worker_tally_def row_tally_def tally_sum_fields cell_tally_def
    tally.simps sum_worker sum_workers ..

lemma totals_dvd:
  assumes "1 \<le> T" and "T dvd N"
  shows "total_live T N prev = total_live 1 N prev"
    and "total_birth T N prev = total_birth 1 N prev"
    and "total_death T N prev = total_death 1 N prev"
  unfolding total_live_sum total_birth_card total_death_card
    covered_dvd [OF assms] covered_dvd [OF order_refl one_dvd] by simp_all

lemma life_step_dvd:
  assumes "1 \<le> T" and "T dvd N"
  shows "life_step N (covered T N) prev cur = life_step N (covered 1 N) prev cur"
  by (rule life_step_cong)
    (simp only: covered_dvd [OF assms] covered_dvd [OF order_refl one_dvd])

lemma generation_dvd:
  assumes fits: "fits_int T N" and "sim_wf N s" and "cur < 2" and "prev = 1 - cur" and "1 \<le> T" and "T dvd N"
  shows "generation T N iter cur prev s = generation 1 N iter cur prev s"
proof -
  have wf: "wf_grid N (buf s cur)"
    using assms(2) by (simp add: sim_wf_buf [OF assms(3,4)])
  have T: "0 < T" using assms(5) by simp
  have std: "distinct [0..<n]" "set [0..<n] = {..<n}" for n by auto
  note a = generation_in_fields [OF fits wf assms(3,4) std T, of iter]
  note b = generation_in_fields [OF fits_int_fewer(1) [OF fits] wf assms(3,4) std zero_less_one, of iter]
  note d = totals_dvd [OF assms(5,6)] life_step_dvd [OF assms(5,6)]
  show ?thesis
    unfolding generation_def
  proof (rule sim_eqI [OF assms(3,4)])
    show "buf (generation_in [0..<T] T N iter cur prev s) cur =
          buf (generation_in [0..<1] 1 N iter cur prev s) cur"
      by (simp only: a b d)
    show "buf (generation_in [0..<T] T N iter cur prev s) prev =
          buf (generation_in [0..<1] 1 N iter cur prev s) prev"
      by (simp only: a b d)
    show "live_count (generation_in [0..<T] T N iter cur prev s) =
          live_count (generation_in [0..<1] 1 N iter cur prev s)"
      by (simp only: a b d)
    show "birth_count (generation_in [0..<T] T N iter cur prev s) =
          birth_count (generation_in [0..<1] 1 N iter cur prev s)"
      by (simp only: a b d)
    show "death_count (generation_in [0..<T] T N iter cur prev s) =
          death_count (generation_in [0..<1] 1 N iter cur prev s)"
      by (simp only: a b d)
    show "stdout (generation_in [0..<T] T N iter cur prev s) =
          stdout (generation_in [0..<1] 1 N iter cur prev s)"
      by (simp only: a b d)
    show "sim.more (generation_in [0..<T] T N iter cur prev s) =
          sim.more (generation_in [0..<1] 1 N iter cur prev s)"
      by (simp only: a b d)
  qed
qed

lemma state_after_dvd:
  assumes fits: "fits_int T N" and "sim_wf N s" and "1 \<le> T" and "T dvd N"
  shows "state_after T N g s = state_after 1 N g s"
proof (induction g)
  case 0
  show ?case by simp
next
  case (Suc g)
  have wf: "sim_wf N (state_after 1 N g s)"
    by (rule sim_wf_state_after [OF fits_int_fewer(1) [OF fits] assms(2)])
  show ?case
    unfolding state_after_Suc [OF fits assms(2)]
      state_after_Suc [OF fits_int_fewer(1) [OF fits] assms(2)] Suc
    by (rule generation_dvd [OF fits wf _ _ assms(3,4)]) simp_all
qed

lemma main_completed:
  assumes fits: "fits_int (arg_num_threads a) (arg_gridsize a)"
    and "valid_schedule (arg_num_threads a) (schedule e)"
    and "\<forall>t<arg_num_threads a. create_rc e t = 0"
    and "barrier_init_rc e = 0" and "mutex_init_rc e = 0"
  shows "main e 5 a =
     Completed (state_after (arg_num_threads a) (arg_gridsize a) (arg_num_iters a) (initial e a))"
proof -
  have "List.find (\<lambda>thread. create_rc e thread \<noteq> 0) [0..<arg_num_threads a] = None"
    using assms(3) by (simp add: find_None_iff)
  then have "startup e a = Started [0..<arg_num_threads a]"
    by (simp add: startup_def)
  moreover have "run_in (schedule e) (arg_num_threads a) (arg_gridsize a) (arg_num_iters a)
      (initial e a) = run (arg_num_threads a) (arg_gridsize a) (arg_num_iters a) (initial e a)"
    using run_in_inv [OF fits sim_wf_initial assms(2)] by simp
  moreover have "sweeps_defined a [0..<arg_num_threads a]"
    using in_arrays_fits [OF fits] by (simp add: sweeps_defined_def)
  ultimately show ?thesis
    using assms(4,5) by (simp add: main_def state_after_def)
qed

text \<open>The initial state depends on the environment through the generator seeded with 0 only.\<close>

lemma initial_eq:
  "initial e a =
     print (Initial (fst (snd (seed_grid (arg_gridsize a) (arg_init_pct a) (drand48_after e 0)
                                  (zero_grid (arg_gridsize a)))))
              (int32 (int (arg_gridsize a) * int (arg_gridsize a))))
       \<lparr>grid0 = fst (seed_grid (arg_gridsize a) (arg_init_pct a) (drand48_after e 0)
                       (zero_grid (arg_gridsize a))),
        grid1 = zero_grid (arg_gridsize a),
        live_count = fst (snd (seed_grid (arg_gridsize a) (arg_init_pct a) (drand48_after e 0)
                                  (zero_grid (arg_gridsize a)))),
        birth_count = 0, death_count = 0, stdout = []\<rparr>"
  by (simp add: initial_def Let_def zero_grids_eq)

lemma initial_cong:
  assumes "drand48_after e1 0 = drand48_after e2 0"
    and "arg_gridsize a1 = arg_gridsize a2" and "arg_init_pct a1 = arg_init_pct a2"
  shows "initial e1 a1 = initial e2 a2"
  unfolding initial_eq assms ..

lemma valid_schedule_const:
  assumes "distinct ts" and "set ts = {..<T}"
  shows "valid_schedule T (\<lambda>iter. ts)"
  using assms by (simp add: valid_schedule_def)

subsection \<open>The seed\<close>

text \<open>
  The program seeds the generator with the constant 0: the initial array is the seeding by the
  values \<open>drand48\<close> returns after \<open>srand48(0)\<close>. So two runs on the same command line,
  whose environments agree on these values and on the results of \<open>pthread_create\<close>,
  \<open>pthread_barrier_init\<close> and \<open>pthread_mutex_init\<close>, have the same initial state and end
  alike, with the same final arrays, whatever the allocated memory held, whatever the generator
  returns for other seeds and in whatever order the workers took their steps in each phase.
\<close>

lemma seed_only:
  assumes fits: "fits_int (arg_num_threads a) (arg_gridsize a)"
    and "drand48_after e1 0 = drand48_after e2 0" and "create_rc e1 = create_rc e2"
    and "valid_schedule (arg_num_threads a) (schedule e1)"
    and "valid_schedule (arg_num_threads a) (schedule e2)"
    and "barrier_init_rc e1 = barrier_init_rc e2" and "mutex_init_rc e1 = mutex_init_rc e2"
  shows "grid0 (initial e1 a) =
           seeded_grid (arg_gridsize a) (arg_init_pct a) (drand48_after e1 0)"
    and "initial e1 a = initial e2 a"
    and "final_grids (main e1 argc a) = final_grids (main e2 argc a)"
proof -
  show init: "initial e1 a = initial e2 a"
    by (rule initial_cong [OF assms(2)]) simp_all
  have "startup e1 a = startup e2 a"
    by (simp add: startup_def assms(3))
  moreover have "run_in (schedule e1) (arg_num_threads a) (arg_gridsize a) (arg_num_iters a)
      (initial e2 a) = run_in (schedule e2) (arg_num_threads a) (arg_gridsize a)
      (arg_num_iters a) (initial e2 a)"
    using run_in_inv [OF fits sim_wf_initial [of a e2] assms(4), of "arg_num_iters a"]
      run_in_inv [OF fits sim_wf_initial [of a e2] assms(5), of "arg_num_iters a"] by simp
  ultimately have "main e1 argc a = main e2 argc a"
    unfolding main_def init Let_def assms(6,7) by (simp only:)
  then show "final_grids (main e1 argc a) = final_grids (main e2 argc a)"
    by simp
  show "grid0 (initial e1 a) =
      seeded_grid (arg_gridsize a) (arg_init_pct a) (drand48_after e1 0)"
    by (rule initial_grids)
qed

subsection \<open>The shared counters in every interleaving\<close>

lemma initial_live2: "initial two_workers_env args_2x2 = live2"
  by (simp add: initial_eq args_2x2_def two_workers_env_def live2_def seed_grid_def
      seed_row_def seed_cell_def zero_grid_def set_cell_def print_def
      upt_rec [of _ "Suc _"] numeral_2_eq_2 int32_def)

lemma sum_worker_upd:
  fixes G :: "worker \<Rightarrow> int" and T :: nat
  assumes "t < T"
  shows "(\<Sum>u<T. G ((f(t := w)) u)) = (\<Sum>u<T. G (f u)) - G (f t) + G w"
proof -
  have fin: "finite {..<T}" and mem: "t \<in> {..<T}" using assms by simp_all
  have "(\<Sum>u<T. G ((f(t := w)) u)) = G w + (\<Sum>u\<in>{..<T} - {t}. G ((f(t := w)) u))"
    using sum.remove [OF fin mem, of "\<lambda>u. G ((f(t := w)) u)"] by simp
  also have "(\<Sum>u\<in>{..<T} - {t}. G ((f(t := w)) u)) = (\<Sum>u\<in>{..<T} - {t}. G (f u))"
    by (rule sum.cong) simp_all
  also have "(\<Sum>u\<in>{..<T} - {t}. G (f u)) = (\<Sum>u<T. G (f u)) - G (f t)"
    using sum.remove [OF fin mem, of "\<lambda>u. G (f u)"] by simp
  finally show ?thesis by simp
qed

lemma added_upd:
  assumes "t < T"
  shows "added T \<lparr>shared = s, workers = (workers p)(t := w)\<rparr> f =
     added T p f
       - (if w_pc (workers p t) = Line_105 then f (w_local (workers p t)) else 0)
       + (if w_pc w = Line_105 then f (w_local w) else 0)"
  unfolding added_def pool.simps
  by (rule sum_worker_upd [OF assms,
        of "\<lambda>w. if w_pc w = Line_105 then f (w_local w) else 0" "workers p" w])

lemma adding_upd:
  assumes "t < T"
  shows "adding T \<lparr>shared = s, workers = (workers p)(t := w)\<rparr> \<longleftrightarrow>
     (w_pc w = Line_98 \<or> w_pc w = Line_105) \<or>
     (\<exists>u<T. u \<noteq> t \<and> (w_pc (workers p u) = Line_98 \<or> w_pc (workers p u) = Line_105))"
  using assms by (auto simp: adding_def)

lemma pool_inv_start: "pool_inv T 0 (start_pool s)"
  by (simp add: pool_inv_def start_pool_def adding_def)

lemma counters_compute_part [simp]:
  "live_count (fst (compute_part T N t iter cur prev s)) = live_count s"
  "birth_count (fst (compute_part T N t iter cur prev s)) = birth_count s"
  "death_count (fst (compute_part T N t iter cur prev s)) = death_count s"
  by (simp_all add: compute_part_def Let_def)

lemma not_adding_pc:
  assumes "pool_inv T g p" and "t < T"
    and "w_pc (workers p t) \<noteq> Line_98" and "w_pc (workers p t) \<noteq> Line_105"
  shows "\<not> adding T p"
  using assms by (auto simp: pool_inv_def)

lemma pool_inv_move:
  assumes inv: "pool_inv T g p" and t: "t < T"
    and old: "w_pc (workers p t) \<noteq> Line_98" "w_pc (workers p t) \<noteq> Line_105"
      "w_pc (workers p t) \<noteq> Line_94"
    and new: "w_pc w \<noteq> Line_98" "w_pc w \<noteq> Line_105" "w_pc w \<noteq> Line_94"
    and counters: "live_count s = live_count (shared p)" "birth_count s = birth_count (shared p)"
      "death_count s = death_count (shared p)"
    and iter: "w_iter w = (if w_pc w = Line_108 then g else Suc g)"
  shows "pool_inv T g \<lparr>shared = s, workers = (workers p)(t := w)\<rparr>"
proof -
  note na = not_adding_pc [OF inv t old(1,2)]
  have na': "\<not> adding T \<lparr>shared = s, workers = (workers p)(t := w)\<rparr>"
    using na new unfolding adding_upd [OF t] by (auto simp: adding_def)
  have w94: "(\<exists>u<T. w_pc (((workers p)(t := w)) u) = Line_94) \<longleftrightarrow>
             (\<exists>u<T. w_pc (workers p u) = Line_94)"
    using old(3) new(3) by auto
  have iters: "\<forall>u<T. w_iter (workers p u) =
        (if w_pc (workers p u) = Line_98 \<or> w_pc (workers p u) = Line_105 \<or>
            w_pc (workers p u) = Line_108 then g else Suc g)"
    using inv by (simp add: pool_inv_def)
  have zero: "(\<exists>u<T. w_pc (workers p u) = Line_94) \<longrightarrow>
        live_count (shared p) = 0 \<and> birth_count (shared p) = 0 \<and> death_count (shared p) = 0"
    using inv na by (simp add: pool_inv_def)
  show ?thesis
    unfolding pool_inv_def
  proof (intro conjI)
    show "adding T \<lparr>shared = s, workers = (workers p)(t := w)\<rparr> \<longrightarrow>
       (\<forall>ta<T. w_pc (workers \<lparr>shared = s, workers = (workers p)(t := w)\<rparr> ta) = Line_98 \<or>
                w_pc (workers \<lparr>shared = s, workers = (workers p)(t := w)\<rparr> ta) = Line_105) \<and>
       live_count (shared \<lparr>shared = s, workers = (workers p)(t := w)\<rparr>) =
         added T \<lparr>shared = s, workers = (workers p)(t := w)\<rparr> local_live_count \<and>
       birth_count (shared \<lparr>shared = s, workers = (workers p)(t := w)\<rparr>) =
         added T \<lparr>shared = s, workers = (workers p)(t := w)\<rparr> local_birth_count \<and>
       death_count (shared \<lparr>shared = s, workers = (workers p)(t := w)\<rparr>) =
         added T \<lparr>shared = s, workers = (workers p)(t := w)\<rparr> local_death_count"
      using na' by simp
    show "\<not> adding T \<lparr>shared = s, workers = (workers p)(t := w)\<rparr> \<longrightarrow>
       (\<exists>ta<T. w_pc (workers \<lparr>shared = s, workers = (workers p)(t := w)\<rparr> ta) = Line_94) \<longrightarrow>
       live_count (shared \<lparr>shared = s, workers = (workers p)(t := w)\<rparr>) = 0 \<and>
       birth_count (shared \<lparr>shared = s, workers = (workers p)(t := w)\<rparr>) = 0 \<and>
       death_count (shared \<lparr>shared = s, workers = (workers p)(t := w)\<rparr>) = 0"
      using zero w94 counters by simp
    show "\<forall>ta<T. w_iter (workers \<lparr>shared = s, workers = (workers p)(t := w)\<rparr> ta) =
       (if w_pc (workers \<lparr>shared = s, workers = (workers p)(t := w)\<rparr> ta) = Line_98 \<or>
           w_pc (workers \<lparr>shared = s, workers = (workers p)(t := w)\<rparr> ta) = Line_105 \<or>
           w_pc (workers \<lparr>shared = s, workers = (workers p)(t := w)\<rparr> ta) = Line_108
        then g else Suc g)"
      using iters iter new by simp
  qed
qed

lemma pool_inv_reset:
  assumes inv: "pool_inv T g p" and t: "t < T" and old: "w_pc (workers p t) = Line_91"
  shows "pool_inv T g
     \<lparr>shared = reset (shared p), workers = (workers p)(t := (workers p t)\<lparr>w_pc := Line_94\<rparr>)\<rparr>"
proof -
  have na: "\<not> adding T p"
    by (rule not_adding_pc [OF inv t]) (simp_all add: old)
  have na': "\<not> adding T
      \<lparr>shared = reset (shared p), workers = (workers p)(t := (workers p t)\<lparr>w_pc := Line_94\<rparr>)\<rparr>"
    using na unfolding adding_upd [OF t] by (auto simp: adding_def)
  have iters: "\<forall>u<T. w_iter (workers p u) =
        (if w_pc (workers p u) = Line_98 \<or> w_pc (workers p u) = Line_105 \<or>
            w_pc (workers p u) = Line_108 then g else Suc g)"
    using inv by (simp add: pool_inv_def)
  show ?thesis
    unfolding pool_inv_def using na' iters old by simp
qed

lemma pool_inv_add:
  assumes inv: "pool_inv T g p" and t: "t < T" and old: "w_pc (workers p t) = Line_98"
  shows "pool_inv T g
     \<lparr>shared = accumulate (w_local (workers p t)) (shared p),
      workers = (workers p)(t := (workers p t)\<lparr>w_pc := Line_105\<rparr>)\<rparr>"
proof -
  let ?p' = "\<lparr>shared = accumulate (w_local (workers p t)) (shared p),
      workers = (workers p)(t := (workers p t)\<lparr>w_pc := Line_105\<rparr>)\<rparr>"
  have a: "adding T p"
    using t old by (auto simp: adding_def)
  with inv have all: "\<forall>u<T. w_pc (workers p u) = Line_98 \<or> w_pc (workers p u) = Line_105"
    and sums: "live_count (shared p) = added T p local_live_count"
      "birth_count (shared p) = added T p local_birth_count"
      "death_count (shared p) = added T p local_death_count"
    and iters: "\<forall>u<T. w_iter (workers p u) =
        (if w_pc (workers p u) = Line_98 \<or> w_pc (workers p u) = Line_105 \<or>
            w_pc (workers p u) = Line_108 then g else Suc g)"
    by (simp_all add: pool_inv_def)
  have a': "adding T ?p'"
    unfolding adding_upd [OF t] by simp
  have added': "added T ?p' f = added T p f + f (w_local (workers p t))" for f
    unfolding added_upd [OF t] using old by simp
  show ?thesis
    unfolding pool_inv_def
  proof (intro conjI impI)
    show "\<forall>u<T. w_pc (workers ?p' u) = Line_98 \<or> w_pc (workers ?p' u) = Line_105"
      using all by simp
    show "live_count (shared ?p') = added T ?p' local_live_count"
      unfolding added' using sums by simp
    show "birth_count (shared ?p') = added T ?p' local_birth_count"
      unfolding added' using sums by simp
    show "death_count (shared ?p') = added T ?p' local_death_count"
      unfolding added' using sums by simp
    show "\<forall>u<T. w_iter (workers ?p' u) =
       (if w_pc (workers ?p' u) = Line_98 \<or> w_pc (workers ?p' u) = Line_105 \<or>
           w_pc (workers ?p' u) = Line_108 then g else Suc g)"
      using iters old by simp
  qed (use a' in simp_all)
qed

subsection \<open>The arrays in every interleaving\<close>

lemma flips:
  "1 - cur_after g = prev_after g" "1 - prev_after g = cur_after g"
  "(prev_after g = 0) \<noteq> (cur_after g = 0)" "cur_after g < 2" "prev_after g < 2"
  "prev_after g = 1 - cur_after g"
  unfolding cur_after_def prev_after_def by presburger+

lemma after_Suc: "cur_after (Suc g) = prev_after g" "prev_after (Suc g) = cur_after g"
  unfolding cur_after_def prev_after_def by presburger+

lemma wf_state_after_buf:
  assumes fits: "fits_int T N" and "sim_wf N s"
  shows "wf_grid N (buf (state_after T N g s) (cur_after g))"
    and "wf_grid N (buf (state_after T N g s) (prev_after g))"
  using sim_wf_state_after [OF fits assms(2-), of g]
  by (simp_all add: sim_wf_buf [OF flips(4) flips(6), of N _ g])

lemma phase_inv_start:
  assumes fits: "fits_int T N" and "sim_wf N s"
  shows "phase_inv T N n s 0 (start_pool s)"
proof -
  have "life_step N (\<lambda>r. \<exists>t<T. swept (workers (start_pool s) t) \<and> covers T N t r)
      (buf s (cur_after 0)) (buf s (prev_after 0)) = buf s (prev_after 0)"
    by (rule life_step_none)
      (use wf_state_after_buf(2) [OF fits assms(2-), of 0] in \<open>simp_all add: swept_def start_pool_def\<close>)
  then show ?thesis
    unfolding phase_inv_def
    by (simp add: start_pool_def swept_def cur_after_def prev_after_def)
qed

lemma phase_inv_move:
  assumes inv: "phase_inv T N n s g p" and t: "t < T"
    and same: "swept w = swept (workers p t)" "w_curr w = w_curr (workers p t)"
      "w_prev w = w_prev (workers p t)" "w_local w = w_local (workers p t)"
    and between: "w_pc w = Line_98 \<or> w_pc w = Line_105 \<Longrightarrow>
      w_pc (workers p t) = Line_98 \<or> w_pc (workers p t) = Line_105"
    and returned: "w_pc w = Returned \<Longrightarrow> n < Suc g"
    and grids: "\<And>b. buf s' b = buf (shared p) b"
  shows "phase_inv T N n s g \<lparr>shared = s', workers = (workers p)(t := w)\<rparr>"
proof -
  let ?p' = "\<lparr>shared = s', workers = (workers p)(t := w)\<rparr>"
  have sw: "swept (workers ?p' u) = swept (workers p u)" for u
    using same(1) by simp
  have set_eq: "(\<lambda>r. \<exists>u<T. swept (workers ?p' u) \<and> covers T N u r) =
                (\<lambda>r. \<exists>u<T. swept (workers p u) \<and> covers T N u r)"
    unfolding sw ..
  have old: "\<forall>u<T.
        w_curr (workers p u) = (if swept (workers p u) then prev_after g else cur_after g) \<and>
        w_prev (workers p u) = (if swept (workers p u) then cur_after g else prev_after g) \<and>
        (swept (workers p u) \<longrightarrow>
           Suc g \<le> n \<and>
           w_local (workers p u) =
             worker_tally T N u (buf (state_after T N g s) (cur_after g))) \<and>
        (w_pc (workers p u) = Line_98 \<or> w_pc (workers p u) = Line_105 \<longrightarrow>
           1 \<le> g \<and>
           w_local (workers p u) =
             worker_tally T N u (buf (state_after T N (g - 1) s) (cur_after (g - 1)))) \<and>
        (w_pc (workers p u) = Returned \<longrightarrow> n < Suc g)"
    using inv unfolding phase_inv_def by blast
  have new: "w_curr (workers ?p' u) =
          (if swept (workers ?p' u) then prev_after g else cur_after g) \<and>
        w_prev (workers ?p' u) =
          (if swept (workers ?p' u) then cur_after g else prev_after g) \<and>
        (swept (workers ?p' u) \<longrightarrow>
           Suc g \<le> n \<and>
           w_local (workers ?p' u) =
             worker_tally T N u (buf (state_after T N g s) (cur_after g))) \<and>
        (w_pc (workers ?p' u) = Line_98 \<or> w_pc (workers ?p' u) = Line_105 \<longrightarrow>
           1 \<le> g \<and>
           w_local (workers ?p' u) =
             worker_tally T N u (buf (state_after T N (g - 1) s) (cur_after (g - 1)))) \<and>
        (w_pc (workers ?p' u) = Returned \<longrightarrow> n < Suc g)" if u: "u < T" for u
  proof (cases "u = t")
    case False
    with old u show ?thesis by simp
  next
    case True
    from old t have o: "w_curr (workers p t) =
          (if swept (workers p t) then prev_after g else cur_after g)"
      "w_prev (workers p t) = (if swept (workers p t) then cur_after g else prev_after g)"
      "swept (workers p t) \<longrightarrow> Suc g \<le> n \<and> w_local (workers p t) =
             worker_tally T N t (buf (state_after T N g s) (cur_after g))"
      "w_pc (workers p t) = Line_98 \<or> w_pc (workers p t) = Line_105 \<longrightarrow>
           1 \<le> g \<and> w_local (workers p t) =
             worker_tally T N t (buf (state_after T N (g - 1) s) (cur_after (g - 1)))"
      by blast+
    show ?thesis
      unfolding True using o between returned by (auto simp: same)
  qed
  show ?thesis
    unfolding phase_inv_def set_eq
  proof (intro conjI)
    show "g \<le> n" using inv by (simp add: phase_inv_def)
    show "buf (shared ?p') (cur_after g) = buf (state_after T N g s) (cur_after g)"
      using inv by (simp add: phase_inv_def grids)
    show "buf (shared ?p') (prev_after g) =
       life_step N (\<lambda>r. \<exists>u<T. swept (workers p u) \<and> covers T N u r)
         (buf (state_after T N g s) (cur_after g)) (buf (state_after T N g s) (prev_after g))"
      using inv unfolding phase_inv_def pool.simps grids by blast
    show "\<forall>ta<T.
       w_curr (workers ?p' ta) = (if swept (workers ?p' ta) then prev_after g else cur_after g) \<and>
       w_prev (workers ?p' ta) = (if swept (workers ?p' ta) then cur_after g else prev_after g) \<and>
       (swept (workers ?p' ta) \<longrightarrow>
        Suc g \<le> n \<and>
        w_local (workers ?p' ta) =
        worker_tally T N ta (buf (state_after T N g s) (cur_after g))) \<and>
       (w_pc (workers ?p' ta) = Line_98 \<or> w_pc (workers ?p' ta) = Line_105 \<longrightarrow>
        1 \<le> g \<and>
        w_local (workers ?p' ta) =
        worker_tally T N ta (buf (state_after T N (g - 1) s) (cur_after (g - 1)))) \<and>
       (w_pc (workers ?p' ta) = Returned \<longrightarrow> n < Suc g)"
      using new by blast
  qed
qed

lemma buf_set_buf_other:
  assumes "(b = 0) \<noteq> (b' = 0)"
  shows "buf (set_buf s b g) b' = buf s b'"
  using assms by (auto simp: buf_def set_buf_def)

lemma buf_set_buf_same: "buf (set_buf s b g) b = g"
  by (simp add: buf_def set_buf_def)

lemma phase_inv_compute:
  assumes fits: "fits_int T N" and inv: "phase_inv T N n s g p" and pinv: "pool_inv T g p" and t: "t < T"
    and pc: "w_pc (workers p t) = Loop_head" and le: "w_iter (workers p t) \<le> n"
  defines "r \<equiv> compute_part T N t (w_iter (workers p t)) (1 - w_curr (workers p t))
                 (1 - w_prev (workers p t)) (shared p)"
  shows "phase_inv T N n s g
     \<lparr>shared = fst r,
      workers = (workers p)(t := (workers p t)\<lparr>w_pc := Line_91,
        w_curr := 1 - w_curr (workers p t), w_prev := 1 - w_prev (workers p t),
        w_local := snd r\<rparr>)\<rparr>"
proof -
  let ?w = "(workers p t)\<lparr>w_pc := Line_91,
        w_curr := 1 - w_curr (workers p t), w_prev := 1 - w_prev (workers p t),
        w_local := snd r\<rparr>"
  let ?p' = "\<lparr>shared = fst r, workers = (workers p)(t := ?w)\<rparr>"
  let ?D = "\<lambda>r. \<exists>u<T. swept (workers p u) \<and> covers T N u r"
  let ?cur = "buf (state_after T N g s) (cur_after g)"
  let ?prev = "buf (state_after T N g s) (prev_after g)"
  have ns: "\<not> swept (workers p t)" using pc by (simp add: swept_def)
  have iter: "w_iter (workers p t) = Suc g"
    using pinv t pc by (simp add: pool_inv_def)
  with le have g: "Suc g \<le> n" by simp
  from inv have bc: "buf (shared p) (cur_after g) = ?cur"
    and bp: "buf (shared p) (prev_after g) = life_step N ?D ?cur ?prev"
    and ws: "\<forall>u<T.
        w_curr (workers p u) = (if swept (workers p u) then prev_after g else cur_after g) \<and>
        w_prev (workers p u) = (if swept (workers p u) then cur_after g else prev_after g) \<and>
        (swept (workers p u) \<longrightarrow>
           Suc g \<le> n \<and>
           w_local (workers p u) =
             worker_tally T N u (buf (state_after T N g s) (cur_after g))) \<and>
        (w_pc (workers p u) = Line_98 \<or> w_pc (workers p u) = Line_105 \<longrightarrow>
           1 \<le> g \<and>
           w_local (workers p u) =
             worker_tally T N u (buf (state_after T N (g - 1) s) (cur_after (g - 1)))) \<and>
        (w_pc (workers p u) = Returned \<longrightarrow> n < Suc g)"
    and gn: "g \<le> n"
    unfolding phase_inv_def by blast+
  from ws t ns have cur: "w_curr (workers p t) = cur_after g"
    and prev: "w_prev (workers p t) = prev_after g"
    by simp_all
  have wf: "wf_grid N (buf (shared p) (prev_after g))"
    unfolding bp by simp
  have r: "r = (set_buf (if t = 0 then print (Iteration (Suc g)) (shared p) else shared p)
                  (prev_after g) (life_step N (covers T N t) ?cur (life_step N ?D ?cur ?prev)),
                worker_tally T N t ?cur)"
    unfolding r_def cur prev iter flips(1,2) compute_part_eq [OF fits wf t] bc bp ..
  have D': "life_step N (covers T N t) ?cur (life_step N ?D ?cur ?prev) =
     life_step N (\<lambda>r. \<exists>u<T. swept (workers ?p' u) \<and> covers T N u r) ?cur ?prev"
    unfolding life_step_life_step
    by (rule life_step_cong) (use t in \<open>auto simp: swept_def\<close>)
  have new: "w_curr (workers ?p' u) =
          (if swept (workers ?p' u) then prev_after g else cur_after g) \<and>
        w_prev (workers ?p' u) =
          (if swept (workers ?p' u) then cur_after g else prev_after g) \<and>
        (swept (workers ?p' u) \<longrightarrow>
           Suc g \<le> n \<and>
           w_local (workers ?p' u) =
             worker_tally T N u (buf (state_after T N g s) (cur_after g))) \<and>
        (w_pc (workers ?p' u) = Line_98 \<or> w_pc (workers ?p' u) = Line_105 \<longrightarrow>
           1 \<le> g \<and>
           w_local (workers ?p' u) =
             worker_tally T N u (buf (state_after T N (g - 1) s) (cur_after (g - 1)))) \<and>
        (w_pc (workers ?p' u) = Returned \<longrightarrow> n < Suc g)" if u: "u < T" for u
  proof (cases "u = t")
    case False
    with ws u show ?thesis by simp
  next
    case True
    show ?thesis
      unfolding True using g by (simp add: swept_def cur prev flips(1,2) r)
  qed
  show ?thesis
    unfolding phase_inv_def
  proof (intro conjI)
    show "g \<le> n" by (rule gn)
    have X: "buf (if t = 0 then print (Iteration (Suc g)) (shared p) else shared p) b =
        buf (shared p) b" for b
      by simp
    show "buf (shared ?p') (cur_after g) = ?cur"
      unfolding pool.simps r fst_conv buf_set_buf_other [OF flips(3)] X bc ..
    show "buf (shared ?p') (prev_after g) =
       life_step N (\<lambda>r. \<exists>u<T. swept (workers ?p' u) \<and> covers T N u r) ?cur ?prev"
      unfolding D' [symmetric] unfolding pool.simps r fst_conv buf_set_buf_same ..
    show "\<forall>ta<T.
       w_curr (workers ?p' ta) = (if swept (workers ?p' ta) then prev_after g else cur_after g) \<and>
       w_prev (workers ?p' ta) = (if swept (workers ?p' ta) then cur_after g else prev_after g) \<and>
       (swept (workers ?p' ta) \<longrightarrow>
        Suc g \<le> n \<and>
        w_local (workers ?p' ta) =
        worker_tally T N ta (buf (state_after T N g s) (cur_after g))) \<and>
       (w_pc (workers ?p' ta) = Line_98 \<or> w_pc (workers ?p' ta) = Line_105 \<longrightarrow>
        1 \<le> g \<and>
        w_local (workers ?p' ta) =
        worker_tally T N ta (buf (state_after T N (g - 1) s) (cur_after (g - 1)))) \<and>
       (w_pc (workers ?p' ta) = Returned \<longrightarrow> n < Suc g)"
      using new by blast
  qed
qed

lemma released_fields [simp]:
  "w_iter (released w) = w_iter w" "w_curr (released w) = w_curr w"
  "w_prev (released w) = w_prev w" "w_local (released w) = w_local w"
  by (simp_all add: released_def)

lemma all_at_105:
  assumes "pool_inv T g p" and "adding T p" and "\<forall>t<T. waiting (workers p t)"
  shows "\<forall>u<T. w_pc (workers p u) = Line_105"
proof (intro allI impI)
  fix u assume "u < T"
  with assms have "w_pc (workers p u) = Line_98 \<or> w_pc (workers p u) = Line_105"
    and "w_pc (workers p u) = Line_94 \<or> w_pc (workers p u) = Line_105"
    by (simp_all add: waiting_def pool_inv_def)
  then show "w_pc (workers p u) = Line_105" by auto
qed

lemma all_at_94:
  assumes "\<not> adding T p" and "\<forall>t<T. waiting (workers p t)"
  shows "\<forall>u<T. w_pc (workers p u) = Line_94"
proof (intro allI impI)
  fix u assume "u < T"
  with assms have "w_pc (workers p u) \<noteq> Line_105"
    and "w_pc (workers p u) = Line_94 \<or> w_pc (workers p u) = Line_105"
    by (auto simp: waiting_def adding_def)
  then show "w_pc (workers p u) = Line_94" by auto
qed

lemma phase_inv_release_second:
  assumes inv: "phase_inv T N n s g p" and at: "\<forall>u<T. w_pc (workers p u) = Line_105"
  shows "phase_inv T N n s g (p\<lparr>workers := (\<lambda>t. released (workers p t))\<rparr>)"
proof -
  let ?p' = "p\<lparr>workers := (\<lambda>t. released (workers p t))\<rparr>"
  have ns: "\<And>u. u < T \<Longrightarrow> \<not> swept (workers p u)"
    and ns': "\<And>u. u < T \<Longrightarrow> \<not> swept (workers ?p' u)"
    and pcs: "\<And>u. u < T \<Longrightarrow> w_pc (workers ?p' u) = Line_108"
    using at by (simp_all add: swept_def released_def)
  have D: "(\<lambda>r. \<exists>u<T. swept (workers ?p' u) \<and> covers T N u r) =
           (\<lambda>r. \<exists>u<T. swept (workers p u) \<and> covers T N u r)"
    using ns ns' by auto
  have sh: "shared ?p' = shared p" by simp
  from inv have ws: "\<forall>u<T.
        w_curr (workers p u) = (if swept (workers p u) then prev_after g else cur_after g) \<and>
        w_prev (workers p u) = (if swept (workers p u) then cur_after g else prev_after g)"
    unfolding phase_inv_def by blast
  have new: "\<forall>u<T.
        w_curr (workers ?p' u) = (if swept (workers ?p' u) then prev_after g else cur_after g) \<and>
        w_prev (workers ?p' u) = (if swept (workers ?p' u) then cur_after g else prev_after g) \<and>
        (swept (workers ?p' u) \<longrightarrow>
           Suc g \<le> n \<and>
           w_local (workers ?p' u) =
             worker_tally T N u (buf (state_after T N g s) (cur_after g))) \<and>
        (w_pc (workers ?p' u) = Line_98 \<or> w_pc (workers ?p' u) = Line_105 \<longrightarrow>
           1 \<le> g \<and>
           w_local (workers ?p' u) =
             worker_tally T N u (buf (state_after T N (g - 1) s) (cur_after (g - 1)))) \<and>
        (w_pc (workers ?p' u) = Returned \<longrightarrow> n < Suc g)"
    using ws ns ns' pcs by simp
  show ?thesis
    unfolding phase_inv_def D sh
    using inv new unfolding phase_inv_def by blast
qed

lemma phase_inv_release_first:
  assumes fits: "fits_int T N" and inv: "phase_inv T N n s g p" and wf: "sim_wf N s" and T: "0 < T"
    and at: "\<forall>u<T. w_pc (workers p u) = Line_94"
  shows "phase_inv T N n s (Suc g) (p\<lparr>workers := (\<lambda>t. released (workers p t))\<rparr>)"
proof -
  let ?p' = "p\<lparr>workers := (\<lambda>t. released (workers p t))\<rparr>"
  let ?S = "state_after T N g s" and ?S' = "state_after T N (Suc g) s"
  have sw: "\<And>u. u < T \<Longrightarrow> swept (workers p u)"
    and ns': "\<And>u. u < T \<Longrightarrow> \<not> swept (workers ?p' u)"
    and pcs: "\<And>u. u < T \<Longrightarrow> w_pc (workers ?p' u) = Line_98"
    using at by (simp_all add: swept_def released_def)
  from inv have bc: "buf (shared p) (cur_after g) = buf ?S (cur_after g)"
    and bp: "buf (shared p) (prev_after g) =
       life_step N (\<lambda>r. \<exists>u<T. swept (workers p u) \<and> covers T N u r)
         (buf ?S (cur_after g)) (buf ?S (prev_after g))"
    and ws: "\<forall>u<T.
        w_curr (workers p u) = (if swept (workers p u) then prev_after g else cur_after g) \<and>
        w_prev (workers p u) = (if swept (workers p u) then cur_after g else prev_after g) \<and>
        (swept (workers p u) \<longrightarrow>
           Suc g \<le> n \<and>
           w_local (workers p u) =
             worker_tally T N u (buf (state_after T N g s) (cur_after g)))"
    unfolding phase_inv_def by blast+
  from ws sw T have g: "Suc g \<le> n" by blast
  have "life_step N (\<lambda>r. \<exists>u<T. swept (workers p u) \<and> covers T N u r)
         (buf ?S (cur_after g)) (buf ?S (prev_after g)) =
        life_step N (covered T N) (buf ?S (cur_after g)) (buf ?S (prev_after g))"
    by (rule life_step_cong) (use sw in \<open>auto simp: covered_iff\<close>)
  also have "\<dots> = buf ?S' (cur_after (Suc g))"
    by (rule generation_step(1) [OF fits wf T, symmetric])
  finally have c': "buf (shared ?p') (cur_after (Suc g)) = buf ?S' (cur_after (Suc g))"
    using bp unfolding after_Suc by (simp del: cur_prev_after)
  have "life_step N (\<lambda>r. \<exists>u<T. swept (workers ?p' u) \<and> covers T N u r)
         (buf ?S' (cur_after (Suc g))) (buf ?S' (prev_after (Suc g))) =
        buf ?S' (prev_after (Suc g))"
    by (rule life_step_none [OF wf_state_after_buf(2) [OF fits wf]]) (use ns' in auto)
  moreover have "buf ?S' (prev_after (Suc g)) = buf ?S (cur_after g)"
    by (rule generation_step(2) [OF fits wf T])
  ultimately have p': "buf (shared ?p') (prev_after (Suc g)) =
      life_step N (\<lambda>r. \<exists>u<T. swept (workers ?p' u) \<and> covers T N u r)
         (buf ?S' (cur_after (Suc g))) (buf ?S' (prev_after (Suc g)))"
    using bc unfolding after_Suc by (simp del: cur_prev_after)
  have new: "\<forall>u<T.
        w_curr (workers ?p' u) =
          (if swept (workers ?p' u) then prev_after (Suc g) else cur_after (Suc g)) \<and>
        w_prev (workers ?p' u) =
          (if swept (workers ?p' u) then cur_after (Suc g) else prev_after (Suc g)) \<and>
        (swept (workers ?p' u) \<longrightarrow>
           Suc (Suc g) \<le> n \<and>
           w_local (workers ?p' u) =
             worker_tally T N u (buf (state_after T N (Suc g) s) (cur_after (Suc g)))) \<and>
        (w_pc (workers ?p' u) = Line_98 \<or> w_pc (workers ?p' u) = Line_105 \<longrightarrow>
           1 \<le> Suc g \<and>
           w_local (workers ?p' u) =
             worker_tally T N u
               (buf (state_after T N (Suc g - 1) s) (cur_after (Suc g - 1)))) \<and>
        (w_pc (workers ?p' u) = Returned \<longrightarrow> n < Suc (Suc g))"
    using ws sw ns' pcs unfolding after_Suc by (simp del: cur_prev_after)
  show ?thesis
    unfolding phase_inv_def using g c' p' new by blast
qed

lemma pool_inv_release_second:
  assumes inv: "pool_inv T g p" and at: "\<forall>u<T. w_pc (workers p u) = Line_105"
  shows "pool_inv T g (p\<lparr>workers := (\<lambda>t. released (workers p t))\<rparr>)"
proof -
  let ?p' = "p\<lparr>workers := (\<lambda>t. released (workers p t))\<rparr>"
  have iters: "\<forall>u<T. w_iter (workers p u) = g"
    using inv at by (simp add: pool_inv_def)
  have pcs: "\<forall>u<T. w_pc (workers ?p' u) = Line_108"
    and its: "\<forall>u<T. w_iter (workers ?p' u) = g"
    using at iters by (simp_all add: released_def)
  have na: "\<not> adding T ?p'"
    unfolding adding_def using pcs by auto
  have n94: "\<not> (\<exists>u<T. w_pc (workers ?p' u) = Line_94)"
    using pcs by auto
  show ?thesis
    unfolding pool_inv_def using na n94 pcs its by auto
qed

lemma pool_inv_release_first:
  assumes inv: "pool_inv T g p" and T: "0 < T" and na: "\<not> adding T p"
    and at: "\<forall>u<T. w_pc (workers p u) = Line_94"
  shows "pool_inv T (Suc g) (p\<lparr>workers := (\<lambda>t. released (workers p t))\<rparr>)"
proof -
  let ?p' = "p\<lparr>workers := (\<lambda>t. released (workers p t))\<rparr>"
  from T at have "\<exists>u<T. w_pc (workers p u) = Line_94" by auto
  with inv na have zero: "live_count (shared p) = 0" "birth_count (shared p) = 0"
    "death_count (shared p) = 0"
    by (simp_all add: pool_inv_def)
  have iters: "\<forall>u<T. w_iter (workers p u) = Suc g"
    using inv at by (simp add: pool_inv_def)
  have pcs: "\<forall>u<T. w_pc (workers ?p' u) = Line_98"
    and its: "\<forall>u<T. w_iter (workers ?p' u) = Suc g"
    using at iters by (simp_all add: released_def)
  have sh: "shared ?p' = shared p" by simp
  have added0: "added T ?p' f = 0" for f
    unfolding added_def by (rule sum.neutral) (use pcs in simp)
  show ?thesis
    unfolding pool_inv_def added0 sh zero using pcs its by auto
qed

lemma pool_workers_update:
  "p\<lparr>workers := f\<rparr> = \<lparr>shared = shared p, workers = f\<rparr>"
  by (cases p) simp

text \<open>The steps of a worker, by the place it is at.\<close>

lemma thread_step_cases:
  assumes "thread_step T N n t p = Some p'"
  obtains
    (sweep) "w_pc (workers p t) = Loop_head" and "w_iter (workers p t) \<le> n" and
      "p' = \<lparr>shared = fst (compute_part T N t (w_iter (workers p t)) (1 - w_curr (workers p t))
                         (1 - w_prev (workers p t)) (shared p)),
         workers = (workers p)(t := (workers p t)\<lparr>w_pc := Line_91,
           w_curr := 1 - w_curr (workers p t), w_prev := 1 - w_prev (workers p t),
           w_local := snd (compute_part T N t (w_iter (workers p t)) (1 - w_curr (workers p t))
                         (1 - w_prev (workers p t)) (shared p))\<rparr>)\<rparr>"
  | (exit) "w_pc (workers p t) = Loop_head" and "\<not> w_iter (workers p t) \<le> n" and
      "p' = \<lparr>shared = shared p, workers = (workers p)(t := (workers p t)\<lparr>w_pc := Returned\<rparr>)\<rparr>"
  | (reset) "w_pc (workers p t) = Line_91" and
      "p' = \<lparr>shared = reset (shared p),
             workers = (workers p)(t := (workers p t)\<lparr>w_pc := Line_94\<rparr>)\<rparr>"
  | (add) "w_pc (workers p t) = Line_98" and
      "p' = \<lparr>shared = accumulate (w_local (workers p t)) (shared p),
             workers = (workers p)(t := (workers p t)\<lparr>w_pc := Line_105\<rparr>)\<rparr>"
  | (report) "w_pc (workers p t) = Line_108" and
      "p' = \<lparr>shared = report t (shared p),
             workers = (workers p)(t := (workers p t)\<lparr>w_pc := Loop_head,
               w_iter := w_iter (workers p t) + 1\<rparr>)\<rparr>"
  using assms
  by (cases "w_pc (workers p t)")
    (auto simp: thread_step_def Let_def pool_workers_update split: if_splits)

lemma step_pool_inv:
  assumes inv: "pool_inv T g p" and t: "t < T" and st: "thread_step T N n t p = Some p'"
  shows "pool_inv T g p'"
proof -
  have iters: "w_iter (workers p t) =
        (if w_pc (workers p t) = Line_98 \<or> w_pc (workers p t) = Line_105 \<or>
            w_pc (workers p t) = Line_108 then g else Suc g)"
    using inv t by (simp add: pool_inv_def)
  from st show ?thesis
  proof (cases rule: thread_step_cases)
    case sweep
    show ?thesis
      unfolding sweep(3) by (rule pool_inv_move [OF inv t]) (use sweep(1) iters in simp_all)
  next
    case exit
    show ?thesis
      unfolding exit(3) by (rule pool_inv_move [OF inv t]) (use exit(1) iters in simp_all)
  next
    case reset
    show ?thesis
      unfolding reset(2) by (rule pool_inv_reset [OF inv t reset(1)])
  next
    case add
    show ?thesis
      unfolding add(2) by (rule pool_inv_add [OF inv t add(1)])
  next
    case report
    show ?thesis
      unfolding report(2) by (rule pool_inv_move [OF inv t]) (use report(1) iters in simp_all)
  qed
qed

lemma step_phase_inv:
  assumes fits: "fits_int T N" and pinv: "pool_inv T g p" and inv: "phase_inv T N n s g p" and t: "t < T"
    and st: "thread_step T N n t p = Some p'"
  shows "phase_inv T N n s g p'"
proof -
  have iters: "w_iter (workers p t) =
        (if w_pc (workers p t) = Line_98 \<or> w_pc (workers p t) = Line_105 \<or>
            w_pc (workers p t) = Line_108 then g else Suc g)"
    using pinv t by (simp add: pool_inv_def)
  from st show ?thesis
  proof (cases rule: thread_step_cases)
    case sweep
    show ?thesis
      unfolding sweep(3) by (rule phase_inv_compute [OF fits inv pinv t sweep(1,2)])
  next
    case exit
    show ?thesis
      unfolding exit(3)
      by (rule phase_inv_move [OF inv t]) (use exit(1,2) iters in \<open>simp_all add: swept_def\<close>)
  next
    case reset
    show ?thesis
      unfolding reset(2)
      by (rule phase_inv_move [OF inv t]) (use reset(1) in \<open>simp_all add: swept_def\<close>)
  next
    case add
    show ?thesis
      unfolding add(2)
      by (rule phase_inv_move [OF inv t]) (use add(1) in \<open>simp_all add: swept_def\<close>)
  next
    case report
    show ?thesis
      unfolding report(2)
      by (rule phase_inv_move [OF inv t]) (use report(1) in \<open>simp_all add: swept_def\<close>)
  qed
qed

lemma fire_inv:
  assumes fits: "fits_int T N" and pinv: "pool_inv T g p" and inv: "phase_inv T N n s g p" and wf: "sim_wf N s"
    and f: "fire T N n a p = Some p'"
  shows "\<exists>g'. pool_inv T g' p' \<and> phase_inv T N n s g' p'"
proof (cases a)
  case Release
  with f have T: "0 < T" and w: "\<forall>t<T. waiting (workers p t)"
    and p': "p' = p\<lparr>workers := (\<lambda>t. released (workers p t))\<rparr>"
    by (auto simp: fire_def split: if_splits)
  show ?thesis
  proof (cases "adding T p")
    case True
    note at = all_at_105 [OF pinv True w]
    show ?thesis
      unfolding p'
      using pool_inv_release_second [OF pinv at] phase_inv_release_second [OF inv at]
      by blast
  next
    case False
    note at = all_at_94 [OF False w]
    show ?thesis
      unfolding p'
      using pool_inv_release_first [OF pinv T False at] phase_inv_release_first [OF fits inv wf T at]
      by blast
  qed
next
  case (Step t)
  with f have t: "t < T" and st: "thread_step T N n t p = Some p'"
    by (auto simp: fire_def split: if_splits)
  show ?thesis
    using step_pool_inv [OF pinv t st] step_phase_inv [OF fits pinv inv t st] by blast
qed

lemma exec_inv:
  assumes fits: "fits_int T N" and "pool_inv T g p" and "phase_inv T N n s g p" and "sim_wf N s"
    and "exec T N n acts p = Some p'"
  shows "\<exists>g'. pool_inv T g' p' \<and> phase_inv T N n s g' p'"
  using assms(2,3,5)
proof (induction acts arbitrary: g p)
  case Nil
  then show ?case by auto
next
  case (Cons a acts)
  from Cons.prems(3) obtain q where q: "fire T N n a p = Some q"
    and rest: "exec T N n acts q = Some p'"
    by (auto split: option.splits)
  from fire_inv [OF fits Cons.prems(1,2) assms(4) q]
  obtain g' where "pool_inv T g' q" and "phase_inv T N n s g' q" by blast
  from Cons.IH [OF this rest] show ?case .
qed

lemma reachable_inv:
  assumes fits: "fits_int T N" and "reachable T N n s p" and "sim_wf N s"
  shows "\<exists>g. pool_inv T g p \<and> phase_inv T N n s g p"
proof -
  from assms(2) obtain acts where "exec T N n acts (start_pool s) = Some p"
    by (auto simp: reachable_def)
  from exec_inv [OF fits pool_inv_start phase_inv_start [OF fits assms(3)] assms(3) this]
  show ?thesis .
qed

text \<open>
  When the last worker has arrived at the second barrier, all workers are in the same
  iteration \<open>g\<close>, each shared counter is the sum of the workers' local counters, the
  arrays and the counters are those of the phased run after \<open>g\<close> iterations, \<open>curr\<close> and
  \<open>prev\<close> of every worker select the current and the previous array of that iteration, and
  the local counters of a worker are those of its rows of the previous array.
\<close>

lemma reduction_complete:
  assumes fits: "fits_int T N" and "reachable T N n s p" and "sim_wf N s"
    and "\<forall>t<T. w_pc (workers p t) = Line_105" and "0 < T"
  shows "\<exists>g. 1 \<le> g \<and> g \<le> n \<and> (\<forall>t<T. w_iter (workers p t) = g)
       \<and> live_count (shared p) = (\<Sum>t<T. local_live_count (w_local (workers p t)))
       \<and> birth_count (shared p) = (\<Sum>t<T. local_birth_count (w_local (workers p t)))
       \<and> death_count (shared p) = (\<Sum>t<T. local_death_count (w_local (workers p t)))
       \<and> grid0 (shared p) = grid0 (state_after T N g s)
       \<and> grid1 (shared p) = grid1 (state_after T N g s)
       \<and> live_count (shared p) = live_count (state_after T N g s)
       \<and> birth_count (shared p) = birth_count (state_after T N g s)
       \<and> death_count (shared p) = death_count (state_after T N g s)
       \<and> (\<forall>t<T. w_curr (workers p t) = cur_after g \<and> w_prev (workers p t) = prev_after g)
       \<and> (\<forall>t<T. w_local (workers p t) = worker_tally T N t (buf (shared p) (prev_after g)))"
proof -
  from reachable_inv [OF fits assms(2,3)] obtain g
    where pinv: "pool_inv T g p" and inv: "phase_inv T N n s g p" by blast
  let ?S = "state_after T N g s"
  have a: "adding T p"
    using assms(4,5) by (auto simp: adding_def)
  have sums: "added T p f = (\<Sum>t<T. f (w_local (workers p t)))" for f
    unfolding added_def by (rule sum.cong) (use assms(4) in simp_all)
  have iters: "\<forall>t<T. w_iter (workers p t) = g"
    using pinv assms(4) by (simp add: pool_inv_def)
  from pinv a have counters: "live_count (shared p) = added T p local_live_count"
    "birth_count (shared p) = added T p local_birth_count"
    "death_count (shared p) = added T p local_death_count"
    by (simp_all add: pool_inv_def)
  have ns: "\<And>u. u < T \<Longrightarrow> \<not> swept (workers p u)"
    using assms(4) by (simp add: swept_def)
  from inv have gn: "g \<le> n"
    and bc: "buf (shared p) (cur_after g) = buf ?S (cur_after g)"
    and bp: "buf (shared p) (prev_after g) =
       life_step N (\<lambda>r. \<exists>t<T. swept (workers p t) \<and> covers T N t r)
         (buf ?S (cur_after g)) (buf ?S (prev_after g))"
    and ws: "\<forall>t<T. w_pc (workers p t) = Line_98 \<or> w_pc (workers p t) = Line_105 \<longrightarrow>
           1 \<le> g \<and>
           w_local (workers p t) =
             worker_tally T N t (buf (state_after T N (g - 1) s) (cur_after (g - 1)))"
    unfolding phase_inv_def by blast+
  from ws assms(4,5) have g1: "1 \<le> g"
    and locals: "\<And>t. t < T \<Longrightarrow> w_local (workers p t) =
        worker_tally T N t (buf (state_after T N (g - 1) s) (cur_after (g - 1)))"
    by auto
  have "life_step N (\<lambda>r. \<exists>t<T. swept (workers p t) \<and> covers T N t r)
         (buf ?S (cur_after g)) (buf ?S (prev_after g)) = buf ?S (prev_after g)"
    by (rule life_step_none [OF wf_state_after_buf(2) [OF fits assms(3)]]) (use ns in auto)
  with bp have bp': "buf (shared p) (prev_after g) = buf ?S (prev_after g)" by simp
  have grids: "grid0 (shared p) = grid0 ?S \<and> grid1 (shared p) = grid1 ?S"
  proof -
    from flips(4) [of g] consider "cur_after g = 0" | "cur_after g = 1" by linarith
    then show ?thesis
    proof cases
      case 1
      with bc bp' flips(1) [of g] show ?thesis by (simp add: buf_def)
    next
      case 2
      with bc bp' flips(1) [of g] show ?thesis by (simp add: buf_def)
    qed
  qed
  obtain g0 where g: "g = Suc g0" using g1 by (cases g) auto
  note st = generation_step [OF fits assms(3,5), of g0, folded g]
  have tot: "(\<Sum>t<T. f (w_local (workers p t))) =
      (\<Sum>t<T. f (worker_tally T N t (buf (state_after T N g0 s) (cur_after g0))))"
    for f :: "tally \<Rightarrow> int"
    by (rule sum.cong) (use locals g in simp_all)
  have S: "live_count (shared p) = live_count ?S" "birth_count (shared p) = birth_count ?S"
    "death_count (shared p) = death_count ?S"
    unfolding counters sums tot st(3,4,5) total_live_def total_birth_def total_death_def
    by simp_all
  have vars: "\<forall>t<T. w_curr (workers p t) = cur_after g \<and> w_prev (workers p t) = prev_after g"
    using inv ns unfolding phase_inv_def by auto
  have "\<forall>t<T. w_local (workers p t) = worker_tally T N t (buf (shared p) (prev_after g))"
    unfolding bp' st(2) using locals g by simp
  then show ?thesis
    using g1 gn iters counters sums grids S vars by auto
qed

text \<open>
  When all workers have returned, the arrays are those of the phased run after
  \<open>num_iters\<close> iterations.
\<close>

lemma returned_grids:
  assumes fits: "fits_int T N" and "reachable T N n s p" and "sim_wf N s"
    and "\<forall>t<T. w_pc (workers p t) = Returned" and "0 < T"
  shows "grid0 (shared p) = grid0 (state_after T N n s)
       \<and> grid1 (shared p) = grid1 (state_after T N n s)"
proof -
  from reachable_inv [OF fits assms(2,3)] obtain g
    where pinv: "pool_inv T g p" and inv: "phase_inv T N n s g p" by blast
  have ns: "\<And>u. u < T \<Longrightarrow> \<not> swept (workers p u)"
    using assms(4) by (simp add: swept_def)
  from inv have gn: "g \<le> n"
    and bc: "buf (shared p) (cur_after g) = buf (state_after T N g s) (cur_after g)"
    and bp: "buf (shared p) (prev_after g) =
       life_step N (\<lambda>r. \<exists>t<T. swept (workers p t) \<and> covers T N t r)
         (buf (state_after T N g s) (cur_after g)) (buf (state_after T N g s) (prev_after g))"
    and ws: "\<forall>t<T. w_pc (workers p t) = Returned \<longrightarrow> n < Suc g"
    unfolding phase_inv_def by blast+
  from ws assms(4,5) have "n < Suc g" by auto
  with gn have g: "g = n" by simp
  let ?S = "state_after T N n s"
  have "life_step N (\<lambda>r. \<exists>t<T. swept (workers p t) \<and> covers T N t r)
         (buf ?S (cur_after n)) (buf ?S (prev_after n)) = buf ?S (prev_after n)"
    by (rule life_step_none [OF wf_state_after_buf(2) [OF fits assms(3)]]) (use ns in auto)
  with bp g have bp': "buf (shared p) (prev_after n) = buf ?S (prev_after n)" by simp
  from bc g have bc': "buf (shared p) (cur_after n) = buf ?S (cur_after n)" by simp
  from flips(4) [of n] consider "cur_after n = 0" | "cur_after n = 1" by linarith
  then show ?thesis
  proof cases
    case 1
    with bc' bp' flips(1) [of n] show ?thesis by (simp add: buf_def)
  next
    case 2
    with bc' bp' flips(1) [of n] show ?thesis by (simp add: buf_def)
  qed
qed

lemma buf_cong:
  assumes "grid0 a = grid0 b" and "grid1 a = grid1 b"
  shows "buf a x = buf b x"
  using assms by (simp add: buf_def)

text \<open>
  In every interleaving, when the last worker has arrived at the second barrier of an
  iteration, \<open>birth_count\<close> is the number of cells visited by some worker that are 0 in
  \<open>grid[prev]\<close> and not 0 in \<open>grid[curr]\<close>, and \<open>death_count\<close> the number of visited cells
  that are not 0 in \<open>grid[prev]\<close> and 0 in \<open>grid[curr]\<close>.
\<close>

lemma second_barrier_counts:
  assumes fits: "fits_int T N" and "reachable T N n s p" and "sim_wf N s"
    and "\<forall>t<T. w_pc (workers p t) = Line_105" and "0 < T"
  shows "birth_count (shared p) =
           int (card {(i, j). covered T N i \<and> 1 \<le> j \<and> j \<le> N \<and>
              cell (buf (shared p) (w_prev (workers p 0))) i j = 0 \<and>
              cell (buf (shared p) (w_curr (workers p 0))) i j \<noteq> 0})"
    and "death_count (shared p) =
           int (card {(i, j). covered T N i \<and> 1 \<le> j \<and> j \<le> N \<and>
              cell (buf (shared p) (w_prev (workers p 0))) i j \<noteq> 0 \<and>
              cell (buf (shared p) (w_curr (workers p 0))) i j = 0})"
proof -
  from reduction_complete [OF fits assms(2-)] obtain g where g1: "1 \<le> g"
    and g0: "grid0 (shared p) = grid0 (state_after T N g s)"
    and g1': "grid1 (shared p) = grid1 (state_after T N g s)"
    and b: "birth_count (shared p) = birth_count (state_after T N g s)"
    and d: "death_count (shared p) = death_count (state_after T N g s)"
    and vars: "\<forall>t<T. w_curr (workers p t) = cur_after g \<and> w_prev (workers p t) = prev_after g"
    by blast
  from vars assms(5) have c: "w_curr (workers p 0) = cur_after g"
    and pr: "w_prev (workers p 0) = prev_after g" by auto
  obtain h where g: "g = Suc h" using g1 by (cases g) auto
  have T: "1 \<le> T" using assms(5) by simp
  note bufs = buf_cong [OF g0 g1']
  note prev = generation_step(2) [OF fits assms(3,5), of h]
  show "birth_count (shared p) =
           int (card {(i, j). covered T N i \<and> 1 \<le> j \<and> j \<le> N \<and>
              cell (buf (shared p) (w_prev (workers p 0))) i j = 0 \<and>
              cell (buf (shared p) (w_curr (workers p 0))) i j \<noteq> 0})"
    unfolding b c pr bufs unfolding g prev by (rule counts_of_generation(1) [OF fits assms(3) T])
  show "death_count (shared p) =
           int (card {(i, j). covered T N i \<and> 1 \<le> j \<and> j \<le> N \<and>
              cell (buf (shared p) (w_prev (workers p 0))) i j \<noteq> 0 \<and>
              cell (buf (shared p) (w_curr (workers p 0))) i j = 0})"
    unfolding d c pr bufs unfolding g prev by (rule counts_of_generation(2) [OF fits assms(3) T])
qed

text \<open>
  The arrays with which \<open>main\<close> completes are those every interleaving of the workers ends
  with.
\<close>

lemma main_grids_any_interleaving:
  assumes fits: "fits_int (arg_num_threads a) (arg_gridsize a)"
    and "valid_schedule (arg_num_threads a) (schedule e)"
    and "\<forall>t<arg_num_threads a. create_rc e t = 0" and "0 < arg_num_threads a"
    and "reachable (arg_num_threads a) (arg_gridsize a) (arg_num_iters a) (initial e a) p"
    and "\<forall>t<arg_num_threads a. w_pc (workers p t) = Returned"
    and "barrier_init_rc e = 0" and "mutex_init_rc e = 0"
  shows "final_grids (main e 5 a) = Some (grid0 (shared p), grid1 (shared p))"
  unfolding main_completed [OF fits assms(2,3,7,8)]
  using returned_grids [OF fits assms(5) sim_wf_initial assms(6,4)]
  by (simp add: final_grids_def)

subsection \<open>What worker 0 prints\<close>

lemma initial_live4: "initial two_workers_env args_4x4 = live4"
  by (simp add: initial_eq args_4x4_def two_workers_env_def live4_def seed_grid_def
      seed_row_def seed_cell_def zero_grid_def set_cell_def print_def
      upt_rec [of _ "Suc _"] numeral_eq_Suc int32_def)

lemma initial_noisy: "initial noisy_env args_2x2 = live2"
  unfolding initial_live2 [symmetric]
  by (rule initial_cong) (simp_all add: noisy_env_def two_workers_env_def)

text \<open>
  C2 fails for the counts worker 0 prints. Two workers run \<open>life 2 4 1.0 2\<close>. When both wait
  in the second barrier of iteration 1, \<open>death_count\<close> is 12 and \<open>birth_count\<close> is 0: 12
  cells of the interior are live in \<open>grid[prev]\<close> and dead in \<open>grid[curr]\<close>, none is dead in
  \<open>grid[prev]\<close> and live in \<open>grid[curr]\<close>. If worker 0 reports at once it prints these counts.
  If worker 1 first leaves the barrier, sweeps for iteration 2 and executes the reset of line
  91, worker 0 prints that 0 cells died in iteration 1.
\<close>

theorem reported_deaths_after_reset:
  "map_option (\<lambda>p. (death_count (shared p), birth_count (shared p)))
     (exec 2 4 2 first_reduction (start_pool (initial two_workers_env args_4x4))) = Some (12, 0)
   \<and> map_option (\<lambda>p. (deaths_between 4 (buf (shared p) (w_prev (workers p 0)))
                          (buf (shared p) (w_curr (workers p 0))),
                        births_between 4 (buf (shared p) (w_prev (workers p 0)))
                          (buf (shared p) (w_curr (workers p 0)))))
     (exec 2 4 2 first_reduction (start_pool (initial two_workers_env args_4x4))) = Some (12, 0)
   \<and> map_option (stdout \<circ> shared)
     (exec 2 4 2 orderly (start_pool (initial two_workers_env args_4x4))) =
       Some [Initial 16 16, Iteration 1, Counters 4 12 0]
   \<and> map_option (stdout \<circ> shared)
     (exec 2 4 2 racy (start_pool (initial two_workers_env args_4x4))) =
       Some [Initial 16 16, Iteration 1, Counters 0 0 0]"
  unfolding initial_live4 by code_simp

text \<open>
  C10 fails for the printed statistics. Two runs of \<open>life 2 2 1.0 2\<close> start from the same
  state, whatever the allocated memory held, both run until every worker has returned and
  both end with the same two arrays. The run in which worker 0 reports iteration 1 before
  worker 1 goes on prints 4 living cells for iteration 1; the run in which worker 1 has
  reset the counters for iteration 2 by then prints 0.
\<close>

theorem statistics_vary_with_schedule:
  "initial two_workers_env args_2x2 = initial noisy_env args_2x2
   \<and> map_option (places 2)
       (exec 2 2 2 orderly_run (start_pool (initial two_workers_env args_2x2))) =
         Some [Returned, Returned]
   \<and> map_option (places 2)
       (exec 2 2 2 racy_run (start_pool (initial noisy_env args_2x2))) =
         Some [Returned, Returned]
   \<and> map_option (\<lambda>p. (grid0 (shared p), grid1 (shared p)))
       (exec 2 2 2 orderly_run (start_pool (initial two_workers_env args_2x2))) =
         Some ([[0, 0, 0, 0], [0, 1, 1, 0], [0, 1, 1, 0], [0, 0, 0, 0]],
               [[0, 0, 0, 0], [0, 1, 1, 0], [0, 1, 1, 0], [0, 0, 0, 0]])
   \<and> map_option (\<lambda>p. (grid0 (shared p), grid1 (shared p)))
       (exec 2 2 2 racy_run (start_pool (initial noisy_env args_2x2))) =
         Some ([[0, 0, 0, 0], [0, 1, 1, 0], [0, 1, 1, 0], [0, 0, 0, 0]],
               [[0, 0, 0, 0], [0, 1, 1, 0], [0, 1, 1, 0], [0, 0, 0, 0]])
   \<and> map_option (stdout \<circ> shared)
       (exec 2 2 2 orderly_run (start_pool (initial two_workers_env args_2x2))) =
         Some [Initial 4 4, Iteration 1, Counters 4 0 0, Iteration 2, Counters 4 0 0]
   \<and> map_option (stdout \<circ> shared)
       (exec 2 2 2 racy_run (start_pool (initial noisy_env args_2x2))) =
         Some [Initial 4 4, Iteration 1, Counters 0 0 0, Iteration 2, Counters 4 0 0]"
  unfolding initial_noisy initial_live2 by code_simp

subsection \<open>The workers run to their end\<close>

lemma thread_step_moves:
  assumes "w_pc (workers p t) = X" and "w_iter (workers p t) = i"
    and "X \<noteq> Line_94" and "X \<noteq> Line_105" and "X \<noteq> Returned"
  shows "\<exists>p'. thread_step T N n t p = Some p' \<and>
           w_pc (workers p' t) = next_pc n X i \<and> w_iter (workers p' t) = next_iter X i \<and>
           (\<forall>u. u \<noteq> t \<longrightarrow> workers p' u = workers p u)"
  using assms
  by (cases X) (simp_all add: thread_step_def Let_def next_pc_def next_iter_def)

lemma exec_append:
  "exec T N n (as @ bs) p =
     (case exec T N n as p of None \<Rightarrow> None | Some q \<Rightarrow> exec T N n bs q)"
  by (induction as arbitrary: p) (simp_all split: option.splits)

lemma exec_seq:
  assumes "exec T N n as p = Some q" and "exec T N n bs q = Some r"
  shows "exec T N n (as @ bs) p = Some r"
  using assms by (simp add: exec_append)

lemma all_step_prefix:
  assumes "uniform T X i p" and "X \<noteq> Line_94" and "X \<noteq> Line_105" and "X \<noteq> Returned"
    and "k \<le> T"
  shows "\<exists>p'. exec T N n (map Step [0..<k]) p = Some p' \<and>
           (\<forall>t<k. w_pc (workers p' t) = next_pc n X i \<and> w_iter (workers p' t) = next_iter X i) \<and>
           (\<forall>t. k \<le> t \<and> t < T \<longrightarrow> w_pc (workers p' t) = X \<and> w_iter (workers p' t) = i)"
  using assms(5)
proof (induction k)
  case 0
  with assms(1) show ?case by (simp add: uniform_def)
next
  case (Suc k)
  then obtain q where q: "exec T N n (map Step [0..<k]) p = Some q"
    and new: "\<forall>t<k. w_pc (workers q t) = next_pc n X i \<and> w_iter (workers q t) = next_iter X i"
    and old: "\<forall>t. k \<le> t \<and> t < T \<longrightarrow> w_pc (workers q t) = X \<and> w_iter (workers q t) = i"
    by auto
  from old Suc.prems have "w_pc (workers q k) = X" and "w_iter (workers q k) = i" by auto
  from thread_step_moves [OF this assms(2,3,4), of T N n]
  obtain p' where st: "thread_step T N n k q = Some p'"
    and k: "w_pc (workers p' k) = next_pc n X i" "w_iter (workers p' k) = next_iter X i"
    and others: "\<forall>u. u \<noteq> k \<longrightarrow> workers p' u = workers q u" by blast
  have "exec T N n (map Step [0..<Suc k]) p = Some p'"
    using q st Suc.prems by (simp add: exec_append fire_def)
  moreover have "\<forall>t<Suc k. w_pc (workers p' t) = next_pc n X i \<and>
      w_iter (workers p' t) = next_iter X i"
    using new k others by (auto simp: less_Suc_eq)
  moreover have "\<forall>t. Suc k \<le> t \<and> t < T \<longrightarrow>
      w_pc (workers p' t) = X \<and> w_iter (workers p' t) = i"
    using old others by auto
  ultimately show ?case by blast
qed

lemma all_step_uniform:
  assumes "uniform T X i p" and "X \<noteq> Line_94" and "X \<noteq> Line_105" and "X \<noteq> Returned"
  shows "\<exists>p'. exec T N n (all_step T) p = Some p' \<and>
           uniform T (next_pc n X i) (next_iter X i) p'"
  using all_step_prefix [OF assms order_refl, of N n]
  by (auto simp: all_step_def uniform_def)

lemma release_uniform:
  assumes "0 < T" and "uniform T X i p" and "X = Line_94 \<or> X = Line_105"
  shows "\<exists>p'. exec T N n [Release] p = Some p' \<and>
           uniform T (if X = Line_94 then Line_98 else Line_108) i p'"
  using assms by (auto simp: fire_def uniform_def waiting_def released_def)

lemma iteration_uniform:
  assumes "0 < T" and "uniform T Loop_head i p" and "i \<le> n"
  shows "\<exists>p'. exec T N n (lockstep_iteration T) p = Some p' \<and> uniform T Loop_head (Suc i) p'"
proof -
  from all_step_uniform [OF assms(2), of N n] assms(3)
  obtain p1 where 1: "exec T N n (all_step T) p = Some p1" and u1: "uniform T Line_91 i p1"
    by (auto simp: next_pc_def next_iter_def)
  from all_step_uniform [OF u1, of N n]
  obtain p2 where 2: "exec T N n (all_step T) p1 = Some p2" and u2: "uniform T Line_94 i p2"
    by (auto simp: next_pc_def next_iter_def)
  from release_uniform [OF assms(1) u2, of N n]
  obtain p3 where 3: "exec T N n [Release] p2 = Some p3" and u3: "uniform T Line_98 i p3"
    by auto
  from all_step_uniform [OF u3, of N n]
  obtain p4 where 4: "exec T N n (all_step T) p3 = Some p4" and u4: "uniform T Line_105 i p4"
    by (auto simp: next_pc_def next_iter_def)
  from release_uniform [OF assms(1) u4, of N n]
  obtain p5 where 5: "exec T N n [Release] p4 = Some p5" and u5: "uniform T Line_108 i p5"
    by auto
  from all_step_uniform [OF u5, of N n]
  obtain p6 where 6: "exec T N n (all_step T) p5 = Some p6"
    and u6: "uniform T Loop_head (Suc i) p6"
    by (auto simp: next_pc_def next_iter_def)
  have "exec T N n (lockstep_iteration T) p = Some p6"
    unfolding lockstep_iteration_def
    by (rule exec_seq [OF 1 exec_seq [OF 2 exec_seq [OF 3 exec_seq [OF 4 exec_seq [OF 5 6]]]]])
  with u6 show ?thesis by blast
qed

lemma iterations_uniform:
  assumes "0 < T" and "uniform T Loop_head i p" and "i + k \<le> Suc n"
  shows "\<exists>p'. exec T N n (concat (replicate k (lockstep_iteration T))) p = Some p' \<and>
           uniform T Loop_head (i + k) p'"
  using assms(2,3)
proof (induction k arbitrary: i p)
  case 0
  then show ?case by simp
next
  case (Suc k)
  from Suc.prems(2) have "i \<le> n" by simp
  from iteration_uniform [OF assms(1) Suc.prems(1) this, of N]
  obtain q where q: "exec T N n (lockstep_iteration T) p = Some q"
    and u: "uniform T Loop_head (Suc i) q" by blast
  from Suc.prems(2) have "Suc i + k \<le> Suc n" by simp
  from Suc.IH [OF u this]
  obtain p' where "exec T N n (concat (replicate k (lockstep_iteration T))) q = Some p'"
    and "uniform T Loop_head (Suc i + k) p'" by blast
  with q show ?case by (simp add: exec_append)
qed

text \<open>
  The workers can always run to their end: from every starting state the run in lockstep is
  enabled at each of its steps, and after it every worker has returned.
\<close>

lemma lockstep_returns:
  assumes "0 < T"
  shows "\<exists>p. exec T N n (lockstep T n) (start_pool s) = Some p \<and>
           (\<forall>t<T. w_pc (workers p t) = Returned)"
proof -
  have "uniform T Loop_head 1 (start_pool s)"
    by (simp add: uniform_def start_pool_def)
  from iterations_uniform [OF assms this, of n n N]
  obtain q where q: "exec T N n (concat (replicate n (lockstep_iteration T))) (start_pool s) = Some q"
    and u: "uniform T Loop_head (Suc n) q" by auto
  from all_step_uniform [OF u, of N n]
  obtain p where "exec T N n (all_step T) q = Some p" and "uniform T Returned (Suc n) p"
    by (auto simp: next_pc_def next_iter_def)
  with q show ?thesis
    by (auto simp: lockstep_def exec_append uniform_def)
qed

lemma complete_run_exists:
  assumes "0 < T"
  shows "\<exists>p. reachable T N n s p \<and> (\<forall>t<T. w_pc (workers p t) = Returned)"
  using lockstep_returns [OF assms, of N n s] unfolding reachable_def by blast

subsection \<open>Unwritten cells and the number of workers in every interleaving\<close>

text \<open>
  At every moment of every interleaving of the workers, a cell outside the rows of the workers
  and the columns \<open>1..gridsize\<close> holds, in either array, what it held when the workers
  started.
\<close>

lemma unwritten_any_moment:
  assumes fits: "fits_int T N" and "reachable T N n s p" and "sim_wf N s" and "i < N + 2" and "j < N + 2"
    and "\<not> (covered T N i \<and> 1 \<le> j \<and> j \<le> N)"
  shows "cell (grid0 (shared p)) i j = cell (grid0 s) i j"
    and "cell (grid1 (shared p)) i j = cell (grid1 s) i j"
proof -
  from reachable_inv [OF fits assms(2,3)] obtain g where inv: "phase_inv T N n s g p"
    by blast
  let ?S = "state_after T N g s"
  from inv have bc: "buf (shared p) (cur_after g) = buf ?S (cur_after g)"
    and bp: "buf (shared p) (prev_after g) =
       life_step N (\<lambda>r. \<exists>t<T. swept (workers p t) \<and> covers T N t r)
         (buf ?S (cur_after g)) (buf ?S (prev_after g))"
    unfolding phase_inv_def by blast+
  note S = unwritten_cell_buf [OF fits assms(3-6), of _ g]
  have "\<not> ((\<exists>t<T. swept (workers p t) \<and> covers T N t i) \<and> 1 \<le> j \<and> j \<le> N)"
    using assms(6) by (auto simp: covered_iff)
  then have "cell (buf (shared p) (prev_after g)) i j = cell (buf ?S (prev_after g)) i j"
    unfolding bp cell_life_step [OF assms(4,5)] by (rule if_not_P)
  then have p0: "cell (buf (shared p) (prev_after g)) i j = cell (buf s (prev_after g)) i j"
    using S [OF flips(5)] by simp
  have c0: "cell (buf (shared p) (cur_after g)) i j = cell (buf s (cur_after g)) i j"
    unfolding bc using S [OF flips(4)] by simp
  from flips(3) [of g] p0 c0 show "cell (grid0 (shared p)) i j = cell (grid0 s) i j"
    by (auto simp: buf_def split: if_splits)
  from flips(3) [of g] p0 c0 show "cell (grid1 (shared p)) i j = cell (grid1 s) i j"
    by (auto simp: buf_def split: if_splits)
qed

text \<open>
  So at every moment every cell in row or column \<open>0\<close> or \<open>gridsize + 1\<close> of either array
  is 0.
\<close>

lemma halo_dead_any_moment:
  assumes fits: "fits_int T (arg_gridsize a)" and "reachable T (arg_gridsize a) n (initial e a) p" and "halo (arg_gridsize a) i j"
  shows "cell (grid0 (shared p)) i j = 0" and "cell (grid1 (shared p)) i j = 0"
proof -
  have ij: "i < arg_gridsize a + 2" "j < arg_gridsize a + 2"
    using assms(3) by (simp_all add: halo_def)
  note nw = halo_not_written [OF assms(3), of T]
  note u = unwritten_any_moment [OF fits assms(2) sim_wf_initial ij nw]
  show "cell (grid0 (shared p)) i j = 0" and "cell (grid1 (shared p)) i j = 0"
    unfolding u using halo_initial [OF assms(3), of e] by simp_all
qed

text \<open>
  For every \<open>k \<ge> 1\<close> that divides \<open>gridsize\<close>, every complete interleaving of \<open>k\<close> workers
  ends with the arrays with which one worker ends.
\<close>

lemma any_interleaving_dividing_gridsize:
  assumes fits: "fits_int k (arg_gridsize a)" and "1 \<le> k" and "k dvd arg_gridsize a" and "drand48_after e1 0 = drand48_after ek 0"
    and "reachable 1 (arg_gridsize a) (arg_num_iters a) (initial e1 a) p1"
    and "w_pc (workers p1 0) = Returned"
    and "reachable k (arg_gridsize a) (arg_num_iters a) (initial ek a) pk"
    and "\<forall>t<k. w_pc (workers pk t) = Returned"
  shows "grid0 (shared p1) = grid0 (shared pk)" and "grid1 (shared p1) = grid1 (shared pk)"
proof -
  have init: "initial e1 a = initial ek a"
    by (rule initial_cong [OF assms(4)]) simp_all
  note wf = sim_wf_initial [of a ek]
  have k: "0 < k" using assms(2) by simp
  have r1: "\<forall>t<1. w_pc (workers p1 t) = Returned"
    using assms(6) by simp
  note a = returned_grids [OF fits_int_fewer(1) [OF fits] assms(5) [unfolded init] wf r1 zero_less_one]
  note b = returned_grids [OF fits assms(7) wf assms(8) k]
  note d = state_after_dvd [OF fits wf assms(2,3)]
  show "grid0 (shared p1) = grid0 (shared pk)" and "grid1 (shared p1) = grid1 (shared pk)"
    using a b unfolding d by simp_all
qed

subsection \<open>The row ranges of the program\<close>

lemma row_bounds_nat:
  assumes "t * N < 2147483648" and "t * N div T + N div T + 1 < 2147483648"
  shows "start_row T N t = int (first_row T N t)" and "end_row T N t = int (last_row T N t)"
proof -
  have "int t * int N < 2147483648" and "- 2147483648 \<le> int t * int N"
    using assms(1) by (simp_all flip: of_nat_mult)
  then have 1: "int32 (int t * int N) = int (t * N)"
    by (simp add: int32_id)
  have 2: "int32 (int (t * N div T) + 1) = int (t * N div T + 1)"
    using assms(2) by (simp add: int32_id)
  show s: "start_row T N t = int (first_row T N t)"
    unfolding start_row_def first_row_def 1 c_div_nat 2 ..
  have 3: "int32 (int (first_row T N t) + int (N div T)) = int (first_row T N t) + int (N div T)"
    using assms(2) by (simp add: int32_id first_row_def)
  have 4: "int32 (int (first_row T N t) + int (N div T) - 1) =
      int (first_row T N t) + int (N div T) - 1"
    using assms(2) by (simp add: int32_id first_row_def)
  have "end_row T N t = int (first_row T N t) + int (N div T) - 1"
    unfolding end_row_def s c_div_nat 3 4 ..
  then show "end_row T N t = int (last_row T N t)"
    by (simp add: last_row_def first_row_def)
qed

lemma set_rows: "set (rows T N t) = {r. owns T N t r}"
  by (auto simp: rows_def owns_def)

lemma int32_minus: "int32 (int32 x - y) = int32 (x - y)"
  by (simp add: int32_def mod_diff_left_eq algebra_simps)

text \<open>The bounds of a worker are those computed in natural numbers as soon as the product
  \<open>num_threads * gridsize\<close> is in the range of \<open>int\<close>.\<close>

lemma row_bounds_product:
  assumes "T * N < 2147483648" and "t < T"
  shows "start_row T N t = int (first_row T N t)" and "end_row T N t = int (last_row T N t)"
proof -
  have le: "t * N \<le> T * N" by (rule mult_le_mono1) (use assms(2) in simp)
  then have 1: "t * N < 2147483648" using assms(1) by linarith
  have 2: "t * N div T + 1 < 2147483648"
  proof (cases "N = 0")
    case True
    then show ?thesis by simp
  next
    case False
    have "Suc t * N \<le> T * N" by (rule mult_le_mono1) (use assms(2) in simp)
    moreover have "t * N div T \<le> t * N" by simp
    moreover have "Suc t * N = t * N + N" by simp
    ultimately have "t * N div T + 1 \<le> T * N" using False by linarith
    then show ?thesis using assms(1) by linarith
  qed
  have "N \<le> T * N" using assms(2) by (cases T) simp_all
  then have 3: "last_row T N t < 2147483648"
    using last_row_le [OF assms(2), of N] assms(1) by linarith
  have "int t * int N < 2147483648" and "- 2147483648 \<le> int t * int N"
    using 1 by (simp_all flip: of_nat_mult)
  then have a: "int32 (int t * int N) = int (t * N)"
    by (simp add: int32_id)
  have b: "int32 (int (t * N div T) + 1) = int (t * N div T + 1)"
    using 2 by (simp add: int32_id)
  show s: "start_row T N t = int (first_row T N t)"
    unfolding start_row_def first_row_def a c_div_nat b ..
  have "int (first_row T N t) + int (N div T) - 1 = int (last_row T N t)"
    by (simp add: last_row_def first_row_def)
  moreover have "int32 (int (last_row T N t)) = int (last_row T N t)"
    using 3 by (simp add: int32_id)
  ultimately show "end_row T N t = int (last_row T N t)"
    unfolding end_row_def s c_div_nat int32_minus by simp
qed

lemma owns_product:
  assumes "T * N < 2147483648" and "t < T"
  shows "owns T N t r \<longleftrightarrow> 0 \<le> r \<and> covers T N t (nat r)"
  unfolding owns_def covers_def row_bounds_product [OF assms] by auto

text \<open>
  C3, as the program behaves. For \<open>num_threads \<ge> 1\<close> and \<open>gridsize \<ge> 1\<close> with
  \<open>num_threads * gridsize\<close> below \<open>2\<^sup>3\<^sup>1\<close>, the bounds of every worker are those of the
  formula \<open>start = t * gridsize / num_threads + 1\<close>, \<open>end = start + gridsize / num_threads - 1\<close>
  with integer division, the rows of two different workers never overlap, and when
  \<open>num_threads\<close> divides \<open>gridsize\<close> every row \<open>1, \<dots>, gridsize\<close> is visited by exactly one
  worker.
\<close>

theorem row_ranges_partition:
  assumes "1 \<le> num_threads" and "1 \<le> gridsize" and "num_threads * gridsize < 2147483648"
  shows "(\<forall>t<num_threads.
            start_row num_threads gridsize t = int (t * gridsize div num_threads) + 1 \<and>
            end_row num_threads gridsize t =
              start_row num_threads gridsize t + int (gridsize div num_threads) - 1)
       \<and> (\<forall>t1<num_threads. \<forall>t2<num_threads. t1 \<noteq> t2 \<longrightarrow>
            set (rows num_threads gridsize t1) \<inter> set (rows num_threads gridsize t2) = {})
       \<and> (num_threads dvd gridsize \<longrightarrow>
            (\<forall>r. 1 \<le> r \<and> r \<le> int gridsize \<longrightarrow>
               (\<exists>!t. t < num_threads \<and> owns num_threads gridsize t r)))"
proof (intro conjI allI impI)
  fix t assume t: "t < num_threads"
  show "start_row num_threads gridsize t = int (t * gridsize div num_threads) + 1"
    unfolding row_bounds_product [OF assms(3) t] by (simp add: first_row_def)
  show "end_row num_threads gridsize t =
      start_row num_threads gridsize t + int (gridsize div num_threads) - 1"
    unfolding row_bounds_product [OF assms(3) t]
    by (simp add: last_row_def first_row_def)
next
  fix t1 t2 assume t: "t1 < num_threads" "t2 < num_threads" and ne: "t1 \<noteq> t2"
  have "\<not> (owns num_threads gridsize t1 r \<and> owns num_threads gridsize t2 r)" for r
    unfolding owns_product [OF assms(3) t(1)] owns_product [OF assms(3) t(2)]
    using covers_unique [of num_threads gridsize t1 "nat r" t2] ne by blast
  then show "set (rows num_threads gridsize t1) \<inter> set (rows num_threads gridsize t2) = {}"
    unfolding set_rows by auto
next
  fix r :: int assume d: "num_threads dvd gridsize" and r: "1 \<le> r \<and> r \<le> int gridsize"
  then have k: "1 \<le> nat r" "nat r \<le> gridsize" and r0: "0 \<le> r"
    by linarith+
  from covers_dvd_ex [OF assms(1) d k] obtain t where t: "t < num_threads"
    and c: "covers num_threads gridsize t (nat r)" by blast
  show "\<exists>!t. t < num_threads \<and> owns num_threads gridsize t r"
  proof (rule ex1I [of _ t])
    show "t < num_threads \<and> owns num_threads gridsize t r"
      using t c r0 unfolding owns_product [OF assms(3) t] by simp
  next
    fix u assume u: "u < num_threads \<and> owns num_threads gridsize u r"
    then have "covers num_threads gridsize u (nat r)"
      using owns_product [OF assms(3), of u r] by simp
    from covers_unique [OF this c] show "u = t" .
  qed
qed

theorem row_ranges_partition_witness:
  "start_row 2 4 1 = 3 \<and> end_row 2 4 1 = 4
   \<and> set (rows 2 4 0) \<inter> set (rows 2 4 1) = {}
   \<and> (\<exists>!t. t < 2 \<and> owns 2 4 t 3)"
proof -
  note p = row_ranges_partition [of 2 4]
  from p have bounds: "\<forall>t<2. start_row 2 4 t = int (t * 4 div 2) + 1 \<and>
            end_row 2 4 t = start_row 2 4 t + int (4 div 2) - 1"
    and disj: "\<forall>t1<2. \<forall>t2<2. t1 \<noteq> t2 \<longrightarrow> set (rows 2 4 t1) \<inter> set (rows 2 4 t2) = {}"
    and cover: "\<forall>r. 1 \<le> r \<and> r \<le> int 4 \<longrightarrow> (\<exists>!t. t < 2 \<and> owns 2 4 t r)"
    by simp_all
  from bounds [rule_format, of 1] disj [rule_format, of 0 1] cover [rule_format, of 3]
  show ?thesis by simp
qed

text \<open>
  C3 as stated fails where the product of line 45 leaves the range of \<open>int\<close>: with 46342
  workers on 46342 rows the products of the workers 46340 and 46341 wrap around, the last
  worker loops over row \<open>-46337\<close>, and row 46342 is visited by no worker, although 46342
  divides 46342.
\<close>

theorem row_ranges_counterexample:
  "(46342::nat) dvd 46342
   \<and> rows 46342 46342 46341 = [- 46337]
   \<and> \<not> owned 46342 46342 46342"
proof -
  have "\<not> owns 46342 46342 t 46342" if "t < 46342" for t
  proof (cases "t \<le> 46339")
    case True
    then have "t * 46342 \<le> 46339 * 46342" by (rule mult_le_mono1)
    then have 1: "t * 46342 < 2147483648" by simp
    have 2: "t * 46342 div 46342 + 46342 div 46342 + 1 < (2147483648::nat)"
      using True by simp
    note b = row_bounds_nat [OF 1 2]
    show ?thesis
      unfolding owns_def b using True by (simp add: last_row_eq)
  next
    case False
    with that consider "t = 46340" | "t = 46341" by linarith
    then show ?thesis
      by cases (simp_all add: owns_def start_row_def end_row_def int32_def c_div_def)
  qed
  then have "\<not> owned 46342 46342 46342"
    by (auto simp: owned_def)
  moreover have "rows 46342 46342 46341 = [- 46337]"
    by (simp add: rows_def start_row_def end_row_def int32_def c_div_def)
  ultimately show ?thesis by simp
qed

subsection \<open>The transition rule\<close>

text \<open>
  C1. In every iteration \<open>Suc g\<close>, for every cell \<open>(i, j)\<close> with \<open>i\<close> a row of a worker and
  \<open>1 \<le> j \<le> gridsize\<close>, the previous array is left as it was and the cell of the current
  array is a function of the sum of the eight neighbours of the cell in the previous array:
  with sum 2 it is the cell's previous state, with sum 3 it is 1 (live), with any other sum it
  is 0 (dead). The sizes are those for which the program's \<open>int\<close>s do not overflow.
\<close>

theorem transition_rule:
  assumes "fits_int num_threads gridsize" and "sim_wf gridsize s"
    and "thread_num < num_threads" and "owns num_threads gridsize thread_num (int i)"
    and "1 \<le> j" and "j \<le> gridsize"
  shows "let prev = buf (state_after num_threads gridsize g s) (cur_after g);
             cur = buf (state_after num_threads gridsize (Suc g) s) (cur_after (Suc g));
             n = prev ! (i - 1) ! (j - 1) + prev ! (i - 1) ! j + prev ! (i - 1) ! (j + 1) +
                 prev ! i ! (j - 1) + prev ! i ! (j + 1) +
                 prev ! (i + 1) ! (j - 1) + prev ! (i + 1) ! j + prev ! (i + 1) ! (j + 1)
         in buf (state_after num_threads gridsize (Suc g) s) (prev_after (Suc g)) = prev \<and>
            (n = 2 \<longrightarrow> cur ! i ! j = prev ! i ! j) \<and>
            (n = 3 \<longrightarrow> cur ! i ! j = 1) \<and>
            (n \<noteq> 2 \<and> n \<noteq> 3 \<longrightarrow> cur ! i ! j = 0)"
proof -
  have T: "0 < num_threads" using assms(3) by simp
  have c: "covers num_threads gridsize thread_num i"
    using assms(4) unfolding owns_int [OF assms(1,3)] .
  then have own: "covered num_threads gridsize i"
    using assms(3) by (auto simp: covered_iff)
  have i: "i < gridsize + 2" and j: "j < gridsize + 2"
    using covers_interior [OF assms(3) c] assms(6) by simp_all
  have "cell (buf (state_after num_threads gridsize (Suc g) s) (cur_after (Suc g))) i j =
        next_cell (buf (state_after num_threads gridsize g s) (cur_after g)) i j"
    using cell_after_generation [OF assms(1,2) T i j, of g] own assms(5,6) by simp
  then show ?thesis
    using generation_step(2) [OF assms(1,2) T, of g]
    by (simp add: Let_def next_cell_def neigh_count_def cell_def)
qed

lemma seeded_blinker:
  "seeded_grid 3 (1 / 2) (\<lambda>k. if 3 \<le> k \<and> k \<le> 5 then 0 else 1) = blinker"
  by (simp add: seeded_grid_def fill_def seed_value_def zero_grid_def cell_def blinker_def
      upt_rec [of _ "numeral _"] upt_rec [of _ "Suc _"])

theorem transition_rule_witness:
  "buf (state_after 1 3 1 (initial blinker_env args_blinker)) (cur_after 1) ! 2 ! 2 = 1
   \<and> buf (state_after 1 3 1 (initial blinker_env args_blinker)) (cur_after 1) ! 1 ! 1 = 0
   \<and> buf (state_after 1 3 1 (initial blinker_env args_blinker)) (cur_after 1) ! 1 ! 2 = 1
   \<and> buf (state_after 1 3 1 (initial blinker_env args_blinker)) (cur_after 1) ! 2 ! 1 = 0"
proof -
  let ?s = "initial blinker_env args_blinker"
  have f: "fits_int 1 3" by (simp add: fits_int_def)
  have wf: "sim_wf 3 ?s"
    using sim_wf_initial [of args_blinker blinker_env] by (simp add: args_blinker_def)
  have own: "owns 1 3 0 (int 1)" "owns 1 3 0 (int 2)"
    by (simp_all add: owns_def start_row_def end_row_def int32_def c_div_def)
  have g0: "buf (state_after 1 3 0 ?s) (cur_after 0) = blinker"
    by (simp add: initial_grids args_blinker_def blinker_env_def seeded_blinker)
  have j: "(1::nat) \<le> 1" "(1::nat) \<le> 3" "(1::nat) \<le> 2" "(2::nat) \<le> 3" by simp_all
  note r = transition_rule [OF f wf zero_less_one, where g = 0, unfolded Let_def g0]
  from r [OF own(2) j(3,4)] r [OF own(1) j(1,2)] r [OF own(1) j(3,4)] r [OF own(2) j(1,2)]
  show ?thesis
    by (simp add: blinker_def)
qed

subsection \<open>The halo and the rows without a worker\<close>

text \<open>
  C5, as the program behaves. For every \<open>gridsize\<close> and number of workers for which the
  program's \<open>int\<close>s do not overflow, every seeding (every generator and \<open>init_pct\<close>, whatever
  the allocated memory held) and after every number \<open>g\<close> of iterations (\<open>g = 0\<close> is the state
  before the run), every cell in row or column \<open>0\<close> or \<open>gridsize + 1\<close> of either array is 0.
\<close>

theorem halo_dead:
  assumes "fits_int (arg_num_threads a) (arg_gridsize a)" and "halo (arg_gridsize a) i j"
  shows "cell (grid0 (state_after (arg_num_threads a) (arg_gridsize a) g (initial e a))) i j = 0
       \<and> cell (grid1 (state_after (arg_num_threads a) (arg_gridsize a) g (initial e a))) i j = 0"
proof -
  have ij: "i < arg_gridsize a + 2" "j < arg_gridsize a + 2"
    using assms(2) by (simp_all add: halo_def)
  note nw = halo_not_written [OF assms(2), of "arg_num_threads a"]
  note wf = sim_wf_initial [of a e]
  from unwritten_cell_buf [OF assms(1) wf ij nw, where b = 0 and g = g]
    unwritten_cell_buf [OF assms(1) wf ij nw, where b = 1 and g = g]
  show ?thesis
    using halo_initial [OF assms(2), of e] by simp
qed

theorem halo_dead_witness:
  "cell (grid0 (state_after 2 3 1 (initial quiet_env args_two_workers))) 0 2 = 0
   \<and> cell (grid1 (state_after 2 3 1 (initial quiet_env args_two_workers))) 0 2 = 0
   \<and> cell (grid1 (state_after 2 3 1 (initial quiet_env args_two_workers))) 4 4 = 0"
proof -
  have f: "fits_int (arg_num_threads args_two_workers) (arg_gridsize args_two_workers)"
    by (simp add: fits_int_def args_two_workers_def)
  have "halo (arg_gridsize args_two_workers) 0 2" "halo (arg_gridsize args_two_workers) 4 4"
    by (simp_all add: halo_def args_two_workers_def)
  from halo_dead [OF f this(1), of 1 quiet_env] halo_dead [OF f this(2), of 1 quiet_env]
  show ?thesis
    by (simp add: args_two_workers_def)
qed

text \<open>
  C5 as stated fails where the product of line 45 leaves the range of \<open>int\<close>: with 65536
  workers on 65536 rows the product \<open>65535 * 65536\<close> wraps around to \<open>-65536\<close>, and the loop
  of line 64 of the last worker runs over row 0, a row of the halo, whose cells it writes.
\<close>

theorem halo_counterexample:
  "rows 65536 65536 65535 = [0] \<and> halo 65536 0 1 \<and> \<not> in_arrays 65536 65536 65535"
  by (simp add: in_arrays_def rows_def start_row_def end_row_def int32_def c_div_def halo_def)

text \<open>
  C4, as the program behaves. When \<open>num_threads \<ge> 1\<close> does not divide \<open>gridsize\<close>, and the
  program's \<open>int\<close>s do not overflow, the highest interior row \<open>gridsize\<close> is visited by no
  worker and \<open>gridsize mod num_threads\<close> interior rows are unvisited in all. No iteration
  writes an unvisited row: after every number of iterations it holds in \<open>grid[0]\<close> what the
  seeding left there and in \<open>grid[1]\<close> the zeros of the initialisation.
\<close>

theorem unowned_rows:
  assumes "1 \<le> arg_num_threads a" and "\<not> arg_num_threads a dvd arg_gridsize a"
    and "fits_int (arg_num_threads a) (arg_gridsize a)"
  shows "\<not> owned (arg_num_threads a) (arg_gridsize a) (int (arg_gridsize a))
       \<and> card {r. 1 \<le> r \<and> r \<le> arg_gridsize a
                \<and> \<not> owned (arg_num_threads a) (arg_gridsize a) (int r)} =
           arg_gridsize a mod arg_num_threads a
       \<and> (\<forall>r j. 1 \<le> r \<and> r \<le> arg_gridsize a
                 \<and> \<not> owned (arg_num_threads a) (arg_gridsize a) (int r)
                 \<and> j < arg_gridsize a + 2 \<longrightarrow>
            cell (grid0 (state_after (arg_num_threads a) (arg_gridsize a) g (initial e a))) r j =
              cell (grid0 (initial e a)) r j
          \<and> cell (grid1 (state_after (arg_num_threads a) (arg_gridsize a) g (initial e a))) r j = 0)"
  unfolding owned_int [OF assms(3)]
proof (intro conjI allI impI)
  show "\<not> covered (arg_num_threads a) (arg_gridsize a) (arg_gridsize a)"
    by (rule top_row_uncovered [OF assms(1,2)])
  show "card {r. 1 \<le> r \<and> r \<le> arg_gridsize a \<and> \<not> covered (arg_num_threads a) (arg_gridsize a) r} =
           arg_gridsize a mod arg_num_threads a"
    by (rule card_uncovered [OF assms(1)])
next
  fix r j
  assume h: "1 \<le> r \<and> r \<le> arg_gridsize a
      \<and> \<not> covered (arg_num_threads a) (arg_gridsize a) r \<and> j < arg_gridsize a + 2"
  then have r: "r < arg_gridsize a + 2" and j: "j < arg_gridsize a + 2"
    and nw: "\<not> (covered (arg_num_threads a) (arg_gridsize a) r \<and> 1 \<le> j \<and> j \<le> arg_gridsize a)"
    by simp_all
  note wf = sim_wf_initial [of a e]
  from unwritten_cell_buf [OF assms(3) wf r j nw, where b = 0 and g = g]
  show "cell (grid0 (state_after (arg_num_threads a) (arg_gridsize a) g (initial e a))) r j =
              cell (grid0 (initial e a)) r j"
    by simp
  from unwritten_cell_buf [OF assms(3) wf r j nw, where b = 1 and g = g]
  show "cell (grid1 (state_after (arg_num_threads a) (arg_gridsize a) g (initial e a))) r j = 0"
    using r j by (simp add: initial_grids cell_zero_grid)
qed

theorem unowned_rows_witness:
  "\<not> owned 2 3 3
   \<and> card {r. 1 \<le> r \<and> r \<le> 3 \<and> \<not> owned 2 3 (int r)} = 1
   \<and> cell (grid0 (state_after 2 3 2 (initial quiet_env args_two_workers))) 3 1 = 1
   \<and> cell (grid1 (state_after 2 3 2 (initial quiet_env args_two_workers))) 3 1 = 0"
proof -
  have a: "arg_num_threads args_two_workers = 2" "arg_gridsize args_two_workers = 3"
    by (simp_all add: args_two_workers_def)
  have h: "1 \<le> arg_num_threads args_two_workers"
    "\<not> arg_num_threads args_two_workers dvd arg_gridsize args_two_workers"
    "fits_int (arg_num_threads args_two_workers) (arg_gridsize args_two_workers)"
    unfolding a by (simp_all add: fits_int_def)
  have seed: "cell (grid0 (initial quiet_env args_two_workers)) 3 1 = 1"
    by (simp add: initial_grids args_two_workers_def quiet_env_def seeded_live3)
      (simp add: live3_def cell_def)
  note u = unowned_rows [OF h, of 2 quiet_env, unfolded a]
  from u have top: "\<not> owned 2 3 (int 3)"
    and "card {r. 1 \<le> r \<and> r \<le> 3 \<and> \<not> owned 2 3 (int r)} = 3 mod 2"
    and cells: "\<forall>r j. 1 \<le> r \<and> r \<le> 3 \<and> \<not> owned 2 3 (int r) \<and> j < 3 + 2 \<longrightarrow>
            cell (grid0 (state_after 2 3 2 (initial quiet_env args_two_workers))) r j =
              cell (grid0 (initial quiet_env args_two_workers)) r j
          \<and> cell (grid1 (state_after 2 3 2 (initial quiet_env args_two_workers))) r j = 0"
    by blast+
  moreover from cells [rule_format, of 3 1] top
  have "cell (grid0 (state_after 2 3 2 (initial quiet_env args_two_workers))) 3 1 =
              cell (grid0 (initial quiet_env args_two_workers)) 3 1
          \<and> cell (grid1 (state_after 2 3 2 (initial quiet_env args_two_workers))) 3 1 = 0"
    by simp
  ultimately show ?thesis
    using seed by simp
qed

text \<open>
  C4 as stated fails in three ways. With 3 workers on 5 rows, row 3 is unvisited while the
  higher row 4 is visited: the unvisited rows are not a block at the high end. With 2 workers
  on 3 rows and an all-live seeding, the unvisited row 3 is live in \<open>grid[0]\<close> but dead in the
  array that is current after the first iteration. And with 46342 workers on 46343 rows the
  product of line 45 wraps around for the last worker, whose loop runs over row \<open>-46336\<close>
  outside the arrays.
\<close>

theorem unowned_rows_counterexample:
  "\<not> owned 3 5 3 \<and> owned 3 5 4
   \<and> \<not> owned 2 3 3
   \<and> cell (grid0 (initial quiet_env args_two_workers)) 3 1 = 1
   \<and> cell (buf (state_after 2 3 1 (initial quiet_env args_two_workers)) (cur_after 1)) 3 1 = 0
   \<and> rows 46342 46343 46341 = [- 46336]"
proof -
  have own: "\<not> owned 3 5 3" "owned 3 5 4" "\<not> owned 2 3 3"
    by (simp_all add: owned_def owns_def start_row_def end_row_def int32_def c_div_def
        upt_rec [of _ "numeral _"])
  have f: "fits_int 2 3" by (simp add: fits_int_def)
  let ?s = "initial quiet_env args_two_workers"
  have wf: "sim_wf 3 ?s"
    using sim_wf_initial [of args_two_workers quiet_env] by (simp add: args_two_workers_def)
  have g0: "grid0 ?s = live3" and g1: "grid1 ?s = zero_grid 3"
    by (simp_all add: initial_grids args_two_workers_def quiet_env_def seeded_live3)
  have "buf (state_after 2 3 (Suc 0) ?s) (cur_after (Suc 0)) =
     [[0, 0, 0, 0, 0], [0, 1, 0, 1, 0], [0, 0, 0, 0, 0], [0, 0, 0, 0, 0], [0, 0, 0, 0, 0]]"
    using generation_step(1) [OF f wf, of 0] by (simp add: g0 g1 step_live3_two)
  then have "cell (buf (state_after 2 3 1 ?s) (cur_after 1)) 3 1 = 0"
    by (simp add: cell_def)
  moreover have "cell (grid0 ?s) 3 1 = 1"
    by (simp add: g0 live3_def cell_def)
  moreover have "rows 46342 46343 46341 = [- 46336]"
    by (simp add: rows_def start_row_def end_row_def int32_def c_div_def)
  ultimately show ?thesis
    using own by simp
qed

subsection \<open>The number of workers and the failures at startup\<close>

lemma startup_all_created:
  assumes "\<forall>t<arg_num_threads a. create_rc e t = 0"
  shows "startup e a = Started [0..<arg_num_threads a]"
proof -
  have "List.find (\<lambda>thread. create_rc e thread \<noteq> 0) [0..<arg_num_threads a] = None"
    using assms by (simp add: find_None_iff)
  then show ?thesis
    by (simp add: startup_def)
qed

text \<open>A run in which a worker sweeps rows outside the arrays is undefined.\<close>

lemma main_sweep_undefined:
  assumes "\<forall>t<arg_num_threads a. create_rc e t = 0" and "1 \<le> arg_num_iters a"
    and "t < arg_num_threads a" and "\<not> in_arrays (arg_num_threads a) (arg_gridsize a) t"
  shows "main e 5 a = Undefined_behaviour"
proof -
  have "\<not> sweeps_defined a [0..<arg_num_threads a]"
    using assms(2,3,4) by (auto simp: sweeps_defined_def)
  then show ?thesis
    unfolding main_def startup_all_created [OF assms(1)] by (simp add: Let_def)
qed

text \<open>
  C6, as the program behaves. For every \<open>k \<ge> 1\<close> that divides \<open>gridsize\<close>, where the
  program's \<open>int\<close>s do not overflow, a run with one worker and a run with \<open>k\<close> workers on the
  same command line otherwise, with the same values of the generator seeded with 0, all
  workers created and the barrier and the mutex initialised, both complete, and with the same
  two arrays.
\<close>

theorem workers_dividing_gridsize:
  assumes "1 \<le> k" and "k dvd arg_gridsize a" and "fits_int k (arg_gridsize a)"
    and "valid_schedule 1 (schedule e1)" and "valid_schedule k (schedule ek)"
    and "drand48_after e1 0 = drand48_after ek 0"
    and "create_rc e1 0 = 0" and "\<forall>t<k. create_rc ek t = 0"
    and "barrier_init_rc e1 = 0" and "mutex_init_rc e1 = 0"
    and "barrier_init_rc ek = 0" and "mutex_init_rc ek = 0"
  shows "final_grids (main e1 5 (a\<lparr>arg_num_threads := 1\<rparr>)) =
           final_grids (main ek 5 (a\<lparr>arg_num_threads := k\<rparr>))
       \<and> final_grids (main e1 5 (a\<lparr>arg_num_threads := 1\<rparr>)) \<noteq> None"
proof -
  let ?a1 = "a\<lparr>arg_num_threads := 1\<rparr>" and ?ak = "a\<lparr>arg_num_threads := k\<rparr>"
  note f1 = fits_int_fewer(1) [OF assms(3)]
  have init: "initial e1 ?a1 = initial ek ?ak"
    by (rule initial_cong [OF assms(6)]) simp_all
  have wf: "sim_wf (arg_gridsize a) (initial ek ?ak)"
    using sim_wf_initial [of ?ak ek] by simp
  have m1: "main e1 5 ?a1 =
      Completed (state_after 1 (arg_gridsize a) (arg_num_iters a) (initial e1 ?a1))"
    using main_completed [of ?a1 e1] f1 assms(4,7,9,10) by simp
  have mk: "main ek 5 ?ak =
      Completed (state_after k (arg_gridsize a) (arg_num_iters a) (initial ek ?ak))"
    using main_completed [of ?ak ek] assms(3,5,8,11,12) by simp
  have "main e1 5 ?a1 = main ek 5 ?ak"
    unfolding m1 mk init state_after_dvd [OF assms(3) wf assms(1,2)] ..
  moreover have "final_grids (main e1 5 ?a1) \<noteq> None"
    unfolding m1 by (simp add: final_grids_def)
  ultimately show ?thesis by simp
qed

theorem workers_dividing_gridsize_witness:
  "final_grids (main quiet_env 5 (args_3x3\<lparr>arg_num_threads := 1\<rparr>)) =
       final_grids (main three_workers_env 5 (args_3x3\<lparr>arg_num_threads := 3\<rparr>))
   \<and> final_grids (main quiet_env 5 (args_3x3\<lparr>arg_num_threads := 1\<rparr>)) \<noteq> None"
proof (rule workers_dividing_gridsize)
  show "1 \<le> (3::nat)" by simp
  show "3 dvd arg_gridsize args_3x3" by (simp add: args_3x3_def)
  show "fits_int 3 (arg_gridsize args_3x3)" by (simp add: args_3x3_def fits_int_def)
  show "valid_schedule 1 (schedule quiet_env)"
    unfolding quiet_env_def env.simps by (rule valid_schedule_const) auto
  show "valid_schedule 3 (schedule three_workers_env)"
    unfolding three_workers_env_def env.simps by (rule valid_schedule_const) auto
  show "drand48_after quiet_env 0 = drand48_after three_workers_env 0"
    by (simp add: quiet_env_def three_workers_env_def)
  show "create_rc quiet_env 0 = 0" by (simp add: quiet_env_def)
  show "\<forall>t<3. create_rc three_workers_env t = 0" by (simp add: three_workers_env_def)
  show "barrier_init_rc quiet_env = 0" "mutex_init_rc quiet_env = 0"
    by (simp_all add: quiet_env_def)
  show "barrier_init_rc three_workers_env = 0" "mutex_init_rc three_workers_env = 0"
    by (simp_all add: three_workers_env_def)
qed

text \<open>
  C6 as stated fails when the number of workers does not divide \<open>gridsize\<close>: on an all-live
  interior of side 3, after one iteration, one worker leaves the corners (3, 1) and (3, 3) live
  in \<open>grid[1]\<close>, while with two workers row 3 has no worker and stays dead. It also fails where
  the product of line 45 leaves the range of \<open>int\<close>: with 46342 workers on 46342 rows the
  last worker sweeps row \<open>-46337\<close> outside the arrays, and the run has no defined outcome.
\<close>

theorem workers_counterexample:
  "final_grids (main quiet_env 5 args_3x3) =
     Some ([[0, 0, 0, 0, 0], [0, 1, 1, 1, 0], [0, 1, 1, 1, 0], [0, 1, 1, 1, 0], [0, 0, 0, 0, 0]],
           [[0, 0, 0, 0, 0], [0, 1, 0, 1, 0], [0, 0, 0, 0, 0], [0, 1, 0, 1, 0], [0, 0, 0, 0, 0]])
   \<and> final_grids (main two_workers_env 5 args_two_workers) =
     Some ([[0, 0, 0, 0, 0], [0, 1, 1, 1, 0], [0, 1, 1, 1, 0], [0, 1, 1, 1, 0], [0, 0, 0, 0, 0]],
           [[0, 0, 0, 0, 0], [0, 1, 0, 1, 0], [0, 0, 0, 0, 0], [0, 0, 0, 0, 0], [0, 0, 0, 0, 0]])
   \<and> (46342::nat) dvd 46342
   \<and> rows 46342 46342 46341 = [- 46337]
   \<and> main quiet_env 5 \<lparr>arg_num_threads = 46342, arg_gridsize = 46342, arg_init_pct = 1,
                          arg_num_iters = 1\<rparr> = Undefined_behaviour"
proof -
  have f1: "fits_int (arg_num_threads args_3x3) (arg_gridsize args_3x3)"
    and f2: "fits_int (arg_num_threads args_two_workers) (arg_gridsize args_two_workers)"
    and f1': "fits_int 1 3" and f2': "fits_int 2 3"
    by (simp_all add: fits_int_def args_3x3_def args_two_workers_def)
  have v1: "valid_schedule (arg_num_threads args_3x3) (schedule quiet_env)"
    unfolding quiet_env_def args_3x3_def env.simps args.simps
    by (rule valid_schedule_const) auto
  have v2: "valid_schedule (arg_num_threads args_two_workers) (schedule two_workers_env)"
    unfolding two_workers_env_def args_two_workers_def env.simps args.simps
    by (rule valid_schedule_const) auto
  have m1: "main quiet_env 5 args_3x3 =
      Completed (state_after 1 3 (Suc 0) (initial quiet_env args_3x3))"
    using main_completed [OF f1 v1] by (simp add: quiet_env_def args_3x3_def)
  have m2: "main two_workers_env 5 args_two_workers =
      Completed (state_after 2 3 (Suc 0) (initial two_workers_env args_two_workers))"
    using main_completed [OF f2 v2] by (simp add: two_workers_env_def args_two_workers_def)
  have wf1: "sim_wf 3 (initial quiet_env args_3x3)"
    using sim_wf_initial [of args_3x3 quiet_env] by (simp add: args_3x3_def)
  have wf2: "sim_wf 3 (initial two_workers_env args_two_workers)"
    using sim_wf_initial [of args_two_workers two_workers_env]
    by (simp add: args_two_workers_def)
  have i1: "grid0 (initial quiet_env args_3x3) = live3"
    "grid1 (initial quiet_env args_3x3) = zero_grid 3"
    by (simp_all add: initial_grids args_3x3_def quiet_env_def seeded_live3)
  have i2: "grid0 (initial two_workers_env args_two_workers) = live3"
    "grid1 (initial two_workers_env args_two_workers) = zero_grid 3"
    by (simp_all add: initial_grids args_two_workers_def two_workers_env_def seeded_live3)
  have "grid1 (state_after 1 3 (Suc 0) (initial quiet_env args_3x3)) = corners3"
    and "grid0 (state_after 1 3 (Suc 0) (initial quiet_env args_3x3)) = live3"
    using generation_step(1,2) [OF f1' wf1, of 0]
    by (simp_all add: i1 step_live3 del: One_nat_def)
  moreover have "grid1 (state_after 2 3 (Suc 0) (initial two_workers_env args_two_workers)) =
      [[0, 0, 0, 0, 0], [0, 1, 0, 1, 0], [0, 0, 0, 0, 0], [0, 0, 0, 0, 0], [0, 0, 0, 0, 0]]"
    and "grid0 (state_after 2 3 (Suc 0) (initial two_workers_env args_two_workers)) = live3"
    using generation_step(1,2) [OF f2' wf2, of 0]
    by (simp_all add: i2 step_live3_two)
  moreover have r: "rows 46342 46342 46341 = [- 46337]"
    by (simp add: rows_def start_row_def end_row_def int32_def c_div_def)
  moreover have "main quiet_env 5 \<lparr>arg_num_threads = 46342, arg_gridsize = 46342,
      arg_init_pct = 1, arg_num_iters = 1\<rparr> = Undefined_behaviour"
    by (rule main_sweep_undefined [of _ _ 46341]) (simp_all add: quiet_env_def in_arrays_def r)
  ultimately show ?thesis
    unfolding m1 m2 by (simp add: final_grids_def live3_def corners3_def)
qed

text \<open>If a call of \<open>pthread_create\<close> fails and nothing the workers created before it do is
  undefined, the first failing worker \<open>k\<close> is named in the line written to standard error and
  the program exits with status 1.\<close>

lemma create_failure_reported:
  assumes "k < arg_num_threads a" and "create_rc e k \<noteq> 0" and "\<forall>t<k. create_rc e t = 0"
    and "fits_int (arg_num_threads a) (arg_gridsize a)" and "barrier_init_rc e = 0"
  shows "startup e a = Aborted 1 (Could_not_create_thread k) [0..<k]"
    and "main e 5 a = Exited 1 (Could_not_create_thread k)"
proof -
  have "List.find (\<lambda>thread. create_rc e thread \<noteq> 0) [0..<arg_num_threads a] = Some k"
    by (rule find_first_failure) (use assms in simp_all)
  then show s: "startup e a = Aborted 1 (Could_not_create_thread k) [0..<k]"
    by (simp add: startup_def)
  have "sweeps_defined a [0..<k]"
    using in_arrays_fits [OF assms(4)] assms(1) by (simp add: sweeps_defined_def)
  then show "main e 5 a = Exited 1 (Could_not_create_thread k)"
    unfolding main_def s using assms(5) by (simp add: Let_def)
qed

text \<open>The program ends with a message on standard error in two cases only: the usage error,
  and a call of \<open>pthread_create\<close> that failed. No failure of \<open>pthread_barrier_init\<close> or
  \<open>pthread_mutex_init\<close> is ever reported.\<close>

lemma reported_failures:
  assumes "main e argc a = Exited status line"
  shows "status = 1 \<and>
     (line = Usage \<and> argc \<noteq> 5 \<or>
      (\<exists>k<arg_num_threads a. line = Could_not_create_thread k \<and> create_rc e k \<noteq> 0))"
proof (cases "argc = 5")
  case False
  with assms show ?thesis by (simp add: main_def)
next
  case True
  show ?thesis
  proof (cases "List.find (\<lambda>thread. create_rc e thread \<noteq> 0) [0..<arg_num_threads a]")
    case None
    then have "startup e a = Started [0..<arg_num_threads a]"
      by (simp add: startup_def)
    with assms True show ?thesis
      by (simp add: main_def Let_def split: if_splits)
  next
    case (Some k)
    then have k: "k < arg_num_threads a" "create_rc e k \<noteq> 0"
      by (auto simp: find_Some_iff)
    from Some have "startup e a = Aborted 1 (Could_not_create_thread k) [0..<k]"
      by (simp add: startup_def)
    with assms True k show ?thesis
      by (auto simp: main_def Let_def split: if_splits)
  qed
qed

text \<open>
  C9 fails for the barrier. Started as \<open>life 0 3 1.0 1\<close>, \<open>pthread_barrier_init\<close> fails (a
  barrier for 0 threads is invalid). The program does not look at the result: it writes nothing
  to standard error and does not exit; it creates its zero workers, joins them and destroys
  the barrier that was never initialised, which is undefined.
\<close>

theorem barrier_failure_unreported:
  "barrier_init_rc barrier_fails_env \<noteq> 0
   \<and> startup barrier_fails_env args_no_workers = Started []
   \<and> main barrier_fails_env 5 args_no_workers = Undefined_behaviour"
  by (simp add: startup_def main_def barrier_fails_env_def args_no_workers_def)

subsection \<open>The reduction of the counters\<close>

text \<open>When every worker has just left the second barrier, the pool is the one in which the
  last of them arrived there, released.\<close>

lemma released_from_second_barrier:
  assumes "reachable T N n s p" and "0 < T" and "\<forall>t<T. w_pc (workers p t) = Line_108"
  shows "\<exists>q. reachable T N n s q \<and> (\<forall>t<T. w_pc (workers q t) = Line_105) \<and>
           shared p = shared q \<and>
           (\<forall>t. w_local (workers p t) = w_local (workers q t) \<and>
                w_prev (workers p t) = w_prev (workers q t) \<and>
                w_curr (workers p t) = w_curr (workers q t))"
proof -
  from assms(1) obtain acts where e: "exec T N n acts (start_pool s) = Some p"
    by (auto simp: reachable_def)
  have "acts \<noteq> []"
  proof
    assume "acts = []"
    with e have "p = start_pool s" by simp
    with assms(2,3) show False by (auto simp: start_pool_def)
  qed
  then obtain as a where acts: "acts = as @ [a]"
    by (metis rev_exhaust)
  from e obtain q where q: "exec T N n as (start_pool s) = Some q"
    and f: "fire T N n a q = Some p"
    unfolding acts exec_append by (auto split: option.splits)
  have rq: "reachable T N n s q"
    using q by (auto simp: reachable_def)
  show ?thesis
  proof (cases a)
    case (Step t)
    with f have t: "t < T" and st: "thread_step T N n t q = Some p"
      by (auto simp: fire_def split: if_splits)
    from st have "w_pc (workers p t) \<noteq> Line_108"
      by (cases rule: thread_step_cases) simp_all
    with assms(3) t show ?thesis by simp
  next
    case Release
    with f have w: "\<forall>t<T. waiting (workers q t)"
      and p: "p = q\<lparr>workers := (\<lambda>t. released (workers q t))\<rparr>"
      by (auto simp: fire_def split: if_splits)
    have "\<forall>t<T. w_pc (workers q t) = Line_105"
    proof (intro allI impI)
      fix t assume t: "t < T"
      with assms(3) have "w_pc (released (workers q t)) = Line_108"
        by (simp add: p)
      with w t show "w_pc (workers q t) = Line_105"
        by (auto simp: waiting_def released_def split: if_splits)
    qed
    with rq show ?thesis
      unfolding p by (intro exI [of _ q]) simp
  qed
qed

text \<open>
  C8. In every interleaving of the workers and every iteration, when the last worker has
  arrived at the second barrier, and still when the barrier has released them, all workers
  are in the same iteration, the local counters of every worker are those its sweep of the
  previous array yields, and each shared counter is the sum of the local counters of all
  workers. The sizes are those for which the program's \<open>int\<close>s do not overflow.
\<close>

theorem reduction_sums:
  assumes "fits_int T N" and "sim_wf N s" and "0 < T" and "reachable T N n s p"
    and "(\<forall>t<T. w_pc (workers p t) = Line_105) \<or> (\<forall>t<T. w_pc (workers p t) = Line_108)"
  shows "live_count (shared p) = (\<Sum>t<T. local_live_count (w_local (workers p t)))
       \<and> birth_count (shared p) = (\<Sum>t<T. local_birth_count (w_local (workers p t)))
       \<and> death_count (shared p) = (\<Sum>t<T. local_death_count (w_local (workers p t)))
       \<and> (\<forall>t<T. w_local (workers p t) =
            snd (thread_sweep T N t (buf (shared p) (w_prev (workers p t)))
                   (buf (shared p) (w_curr (workers p t)))))"
proof -
  have *: "live_count (shared q) = (\<Sum>t<T. local_live_count (w_local (workers q t)))
       \<and> birth_count (shared q) = (\<Sum>t<T. local_birth_count (w_local (workers q t)))
       \<and> death_count (shared q) = (\<Sum>t<T. local_death_count (w_local (workers q t)))
       \<and> (\<forall>t<T. w_local (workers q t) =
            snd (thread_sweep T N t (buf (shared q) (w_prev (workers q t)))
                   (buf (shared q) (w_curr (workers q t)))))"
    if r: "reachable T N n s q" and at: "\<forall>t<T. w_pc (workers q t) = Line_105" for q
  proof -
    from reduction_complete [OF assms(1) r assms(2) at assms(3)] obtain g
      where sums: "live_count (shared q) = (\<Sum>t<T. local_live_count (w_local (workers q t)))"
        "birth_count (shared q) = (\<Sum>t<T. local_birth_count (w_local (workers q t)))"
        "death_count (shared q) = (\<Sum>t<T. local_death_count (w_local (workers q t)))"
      and g0: "grid0 (shared q) = grid0 (state_after T N g s)"
      and g1: "grid1 (shared q) = grid1 (state_after T N g s)"
      and vars: "\<forall>t<T. w_curr (workers q t) = cur_after g \<and> w_prev (workers q t) = prev_after g"
      and locals: "\<forall>t<T. w_local (workers q t) =
          worker_tally T N t (buf (shared q) (prev_after g))"
      by blast
    have wf: "wf_grid N (buf (shared q) (cur_after g))"
      unfolding buf_cong [OF g0 g1] by (rule wf_state_after_buf(1) [OF assms(1,2)])
    have "w_local (workers q t) =
        snd (thread_sweep T N t (buf (shared q) (w_prev (workers q t)))
               (buf (shared q) (w_curr (workers q t))))" if t: "t < T" for t
      using vars locals t thread_sweep_eq [OF assms(1) wf t] by simp
    with sums show ?thesis by simp
  qed
  from assms(5) show ?thesis
  proof
    assume "\<forall>t<T. w_pc (workers p t) = Line_105"
    from * [OF assms(4) this] show ?thesis .
  next
    assume "\<forall>t<T. w_pc (workers p t) = Line_108"
    from released_from_second_barrier [OF assms(4,3) this] obtain q
      where q: "reachable T N n s q" "\<forall>t<T. w_pc (workers q t) = Line_105"
        and same: "shared p = shared q"
          "\<forall>t. w_local (workers p t) = w_local (workers q t) \<and>
               w_prev (workers p t) = w_prev (workers q t) \<and>
               w_curr (workers p t) = w_curr (workers q t)"
      by blast
    from * [OF q] show ?thesis
      unfolding same(1) using same(2) by simp
  qed
qed

theorem reduction_sums_witness:
  "map_option (\<lambda>p. (live_count (shared p), map (\<lambda>t. local_live_count (w_local (workers p t))) [0..<2]))
     (exec 2 2 2 first_reduction (start_pool (initial two_workers_env args_2x2))) =
     Some (4, [2, 2])
   \<and> map_option (\<lambda>p. live_count (shared p) =
                       (\<Sum>t<2. local_live_count (w_local (workers p t))))
     (exec 2 2 2 (first_reduction @ [Release]) (start_pool (initial two_workers_env args_2x2))) =
     Some True"
proof -
  let ?s = "initial two_workers_env args_2x2"
  have f: "fits_int 2 2" by (simp add: fits_int_def)
  have wf: "sim_wf 2 ?s"
    using sim_wf_initial [of args_2x2 two_workers_env] by (simp add: args_2x2_def)
  have "exec 2 2 2 (first_reduction @ [Release]) (start_pool ?s) \<noteq> None"
    unfolding initial_live2 by code_simp
  then obtain p where p: "exec 2 2 2 (first_reduction @ [Release]) (start_pool ?s) = Some p"
    by auto
  then have r: "reachable 2 2 2 ?s p"
    by (auto simp: reachable_def)
  have "map_option (places 2) (exec 2 2 2 (first_reduction @ [Release]) (start_pool ?s)) =
      Some [Line_108, Line_108]"
    unfolding initial_live2 by code_simp
  then have at: "\<forall>t<2. w_pc (workers p t) = Line_108"
    unfolding p by (simp add: places_def less_Suc_eq numeral_2_eq_2)
  from reduction_sums [OF f wf _ r, OF _ disjI2, OF _ at]
  have "live_count (shared p) = (\<Sum>t<2. local_live_count (w_local (workers p t)))"
    by simp
  then have 2: "map_option (\<lambda>p. live_count (shared p) =
                       (\<Sum>t<2. local_live_count (w_local (workers p t))))
     (exec 2 2 2 (first_reduction @ [Release]) (start_pool ?s)) = Some True"
    unfolding p by simp
  have 1: "map_option (\<lambda>p. (live_count (shared p),
        map (\<lambda>t. local_live_count (w_local (workers p t))) [0..<2]))
     (exec 2 2 2 first_reduction (start_pool ?s)) = Some (4, [2, 2])"
    unfolding initial_live2 by code_simp
  from 1 2 show ?thesis by simp
qed

end
